theory Spec2Isabelle
  imports Main
begin

unbundle bit_operations_syntax

section \<open>Python text primitives used by the scripts\<close>

text \<open>
  A Python \<open>str\<close> is modelled as a \<open>string\<close>; a \<open>char\<close> stands for the code point of the
  same number, so the texts covered are those over the code points 0 to 255.
  \<open>None\<close> is the \<open>None\<close> of \<open>option\<close>, and an exception that the scripts do not catch
  is a value of \<open>py_error\<close> on the left of a sum.
\<close>

datatype py_error = IndexError | FileNotFoundError

text \<open>\<open>str.isspace\<close> on one character: the code points below 256 that Python strips.\<close>

definition isspace :: "char \<Rightarrow> bool" where
  "isspace c = (of_char c \<in> {9, 10, 11, 12, 13, 28, 29, 30, 31, 32, 133, 160 :: nat})"

text \<open>\<open>s.strip()\<close>\<close>

definition strip :: "string \<Rightarrow> string" where
  "strip s = rev (dropWhile isspace (rev (dropWhile isspace s)))"

text \<open>\<open>s.startswith(p)\<close>\<close>

definition startswith :: "string \<Rightarrow> string \<Rightarrow> bool" where
  "startswith s p = (take (length p) s = p)"

text \<open>
  \<open>s.upper()\<close>. The ASCII letters are mapped to their capitals. The other characters are
  left as they are: the scripts only test whether the result starts with the literal
  \<open>IP-CIDR,\<close>, and what Python makes of a code point from 128 to 255 holds no character
  of that literal (code point 223 becomes \<open>SS\<close>), so the test comes out the same.
\<close>

definition upper_chr :: "char \<Rightarrow> char" where
  "upper_chr c = (let n = (of_char c :: nat) in if 97 \<le> n \<and> n \<le> 122 then char_of (n - 32) else c)"

definition upper :: "string \<Rightarrow> string" where
  "upper s = map upper_chr s"

text \<open>\<open>s.split(sep)\<close> for a one-character separator: the result is never empty.\<close>

fun split :: "char \<Rightarrow> string \<Rightarrow> string list" where
  "split sep [] = [[]]"
| "split sep (c # cs) =
     (if c = sep then [] # split sep cs
      else (case split sep cs of [] \<Rightarrow> [[c]] | p # ps \<Rightarrow> (c # p) # ps))"

text \<open>\<open>s.split(sep, 1)\<close>: at most one cut, at the first separator.\<close>

definition split_max1 :: "char \<Rightarrow> string \<Rightarrow> string list" where
  "split_max1 sep s =
     (case dropWhile (\<lambda>c. c \<noteq> sep) s of
        [] \<Rightarrow> [s]
      | _ # r \<Rightarrow> [takeWhile (\<lambda>c. c \<noteq> sep) s, r])"

text \<open>\<open>xs[1]\<close>, which raises \<open>IndexError\<close> on a list shorter than two.\<close>

fun item1 :: "'a list \<Rightarrow> py_error + 'a" where
  "item1 (_ # y # _) = Inr y"
| "item1 _ = Inl IndexError"

text \<open>\<open>sep.join(xs)\<close>\<close>

fun join :: "string \<Rightarrow> string list \<Rightarrow> string" where
  "join sep [] = []"
| "join sep [x] = x"
| "join sep (x # y # ys) = x @ sep @ join sep (y # ys)"

text \<open>
  \<open>s.splitlines()\<close>: the line boundaries below code point 256 are LF, VT, FF, CR, FS, GS,
  RS and NEL, and CR LF counts as one boundary. A final boundary opens no further line.
  The first argument is the line read so far.
\<close>

definition is_linebreak :: "char \<Rightarrow> bool" where
  "is_linebreak c = (of_char c \<in> {10, 11, 12, 13, 28, 29, 30, 133 :: nat})"

fun splitlines_from :: "string \<Rightarrow> string \<Rightarrow> string list" where
  "splitlines_from cur [] = (if cur = [] then [] else [cur])"
| "splitlines_from cur [c] = (if is_linebreak c then [cur] else [cur @ [c]])"
| "splitlines_from cur (c # d # r) =
     (if c = CHR 0x0D \<and> d = CHR 0x0A then cur # splitlines_from [] r
      else if is_linebreak c then cur # splitlines_from [] (d # r)
      else splitlines_from (cur @ [c]) (d # r))"

definition splitlines :: "string \<Rightarrow> string list" where
  "splitlines s = splitlines_from [] s"

section \<open>Files\<close>

text \<open>
  The file system maps a path to the text of the file. \<open>read_text\<close> opens the file in text
  mode, where CR LF and CR are read as LF; \<open>write_text\<close> replaces the whole text (line
  ends are written as they are, as on POSIX). Decoding is not modelled: the stored text is
  the decoded one.
\<close>

type_synonym path = string
type_synonym fs = "path \<rightharpoonup> string"

fun universal_newlines :: "string \<Rightarrow> string" where
  "universal_newlines [] = []"
| "universal_newlines [c] = [if c = CHR 0x0D then CHR 0x0A else c]"
| "universal_newlines (c # d # r) =
     (if c = CHR 0x0D \<and> d = CHR 0x0A then CHR 0x0A # universal_newlines r
      else if c = CHR 0x0D then CHR 0x0A # universal_newlines (d # r)
      else c # universal_newlines (d # r))"

definition read_text :: "fs \<Rightarrow> path \<Rightarrow> py_error + string" where
  "read_text files p =
     (case files p of None \<Rightarrow> Inl FileNotFoundError | Some t \<Rightarrow> Inr (universal_newlines t))"

definition write_text :: "fs \<Rightarrow> path \<Rightarrow> string \<Rightarrow> fs" where
  "write_text files p t = files(p \<mapsto> t)"

text \<open>\<open>path.with_suffix(path.suffix + ".bak")\<close>: the path with \<open>.bak\<close> appended.\<close>

definition bak_path :: "path \<Rightarrow> path" where
  "bak_path p = p @ ''.bak''"

definition MAKE_BACKUP :: bool where
  "MAKE_BACKUP = True"

section \<open>domains.py\<close>

text \<open>
  The loop of \<open>process_lst_file\<close> in domains.py, with its two accumulators
  \<open>out_lines\<close> and \<open>changed\<close>.
\<close>

fun domains_loop :: "string list \<Rightarrow> string list \<Rightarrow> nat \<Rightarrow> string list \<times> nat" where
  "domains_loop [] out_lines changed = (out_lines, changed)"
| "domains_loop (raw # rest) out_lines changed =
     (let line = strip raw in
      if line = [] then domains_loop rest (out_lines @ [raw]) changed
      else if startswith line ''#'' then domains_loop rest (out_lines @ [raw]) changed
      else if startswith line ''DOMAIN-SUFFIX,'' then domains_loop rest (out_lines @ [line]) changed
      else domains_loop rest (out_lines @ [''DOMAIN-SUFFIX,'' @ line]) (changed + 1))"

definition domains_process_lst_file :: "fs \<Rightarrow> path \<Rightarrow> py_error + (fs \<times> nat)" where
  "domains_process_lst_file files p =
     (case read_text files p of
        Inl e \<Rightarrow> Inl e
      | Inr text \<Rightarrow>
          (let src_lines = splitlines text;
               (out_lines, changed) = domains_loop src_lines [] 0;
               files1 = (if MAKE_BACKUP
                         then write_text files (bak_path p) (join [CHR 0x0A] src_lines)
                         else files);
               files2 = write_text files1 p (join [CHR 0x0A] out_lines @ [CHR 0x0A])
           in Inr (files2, changed)))"

section \<open>domains_ip.py: the domain lists\<close>

fun process_domain_loop :: "string list \<Rightarrow> string list \<Rightarrow> nat \<Rightarrow> string list \<times> nat" where
  "process_domain_loop [] out_lines changed = (out_lines, changed)"
| "process_domain_loop (raw # rest) out_lines changed =
     (let line = strip raw in
      if line = [] \<or> startswith line ''#'' then process_domain_loop rest (out_lines @ [raw]) changed
      else if startswith line ''DOMAIN-SUFFIX,''
        then process_domain_loop rest (out_lines @ [line]) changed
      else process_domain_loop rest (out_lines @ [''DOMAIN-SUFFIX,'' @ line]) (changed + 1))"

definition process_domain_lst_file :: "fs \<Rightarrow> path \<Rightarrow> py_error + (fs \<times> nat)" where
  "process_domain_lst_file files p =
     (case read_text files p of
        Inl e \<Rightarrow> Inl e
      | Inr text \<Rightarrow>
          (let src_lines = splitlines text;
               (out_lines, changed) = process_domain_loop src_lines [] 0;
               files1 = (if MAKE_BACKUP
                         then write_text files (bak_path p) (join [CHR 0x0A] src_lines)
                         else files);
               files2 = write_text files1 p (join [CHR 0x0A] out_lines @ [CHR 0x0A])
           in Inr (files2, changed)))"

section \<open>The standard module ipaddress\<close>

text \<open>
  The scripts call \<open>ipaddress.ip_address\<close>, \<open>ipaddress.ip_network\<close> with
  \<open>strict=False\<close>, \<open>str\<close> of the result and \<open>isinstance\<close>. The functions of the module
  (CPython 3.11) on that path are transcribed here. Every exception they raise on a string
  argument is an \<open>AddressValueError\<close> or a \<open>NetmaskValueError\<close>, both a \<open>ValueError\<close>:
  it is the result \<open>None\<close>. Python integers are \<open>int\<close>.
\<close>

subsection \<open>Digits and numbers\<close>

text \<open>\<open>s.isascii() and s.isdigit()\<close>: not empty, and only the digits 0 to 9.\<close>

definition ascii_digit :: "char \<Rightarrow> bool" where
  "ascii_digit c = (let n = (of_char c :: nat) in 48 \<le> n \<and> n \<le> 57)"

definition isascii_isdigit :: "string \<Rightarrow> bool" where
  "isascii_isdigit s = (s \<noteq> [] \<and> list_all ascii_digit s)"

text \<open>Membership in \<open>_HEX_DIGITS\<close>.\<close>

definition hex_digit :: "char \<Rightarrow> bool" where
  "hex_digit c = (let n = (of_char c :: nat) in
     (48 \<le> n \<and> n \<le> 57) \<or> (65 \<le> n \<and> n \<le> 70) \<or> (97 \<le> n \<and> n \<le> 102))"

definition digit_value :: "char \<Rightarrow> int" where
  "digit_value c = (let n = (of_char c :: nat) in
     if n \<le> 57 then int n - 48 else if n \<le> 70 then int n - 55 else int n - 87)"

text \<open>\<open>int(s, base)\<close> on a string of digits of the base.\<close>

definition int_of_str :: "int \<Rightarrow> string \<Rightarrow> int" where
  "int_of_str base s = foldl (\<lambda>acc c. acc * base + digit_value c) 0 s"

text \<open>\<open>int(s)\<close> on a string of decimal digits: more than 4300 digits raise \<open>ValueError\<close>.\<close>

definition int_of_decimal :: "string \<Rightarrow> int option" where
  "int_of_decimal s = (if length s > 4300 then None else Some (int_of_str 10 s))"

definition digit_chr :: "nat \<Rightarrow> char" where
  "digit_chr d = (if d < 10 then char_of (48 + d) else char_of (87 + d))"

function str_nat :: "nat \<Rightarrow> nat \<Rightarrow> string" where
  "str_nat base n =
     (if base < 2 \<or> n < base then [digit_chr n]
      else str_nat base (n div base) @ [digit_chr (n mod base)])"
  by pat_completeness auto
termination
  by (relation "measure snd") auto

declare str_nat.simps [simp del]

text \<open>\<open>str(n)\<close> and \<open>'%d' % n\<close>\<close>

definition str_int :: "int \<Rightarrow> string" where
  "str_int n = (if n < 0 then CHR ''-'' # str_nat 10 (nat (- n)) else str_nat 10 (nat n))"

text \<open>\<open>'%x' % n\<close>\<close>

definition fmt_x :: "int \<Rightarrow> string" where
  "fmt_x n = (if n < 0 then CHR ''-'' # str_nat 16 (nat (- n)) else str_nat 16 (nat n))"

text \<open>\<open>'%032x' % n\<close>: zeros after the sign fill the text up to 32 characters.\<close>

definition fmt_032x :: "int \<Rightarrow> string" where
  "fmt_032x n =
     (if n < 0 then CHR ''-'' # replicate (31 - length (str_nat 16 (nat (- n)))) CHR ''0''
                     @ str_nat 16 (nat (- n))
      else replicate (32 - length (str_nat 16 (nat n))) CHR ''0'' @ str_nat 16 (nat n))"

text \<open>\<open>int.from_bytes(bs, 'big')\<close> and \<open>n.to_bytes(4, 'big')\<close> (for \<open>0 \<le> n < 2 ^ 32\<close>).\<close>

definition from_bytes_big :: "int list \<Rightarrow> int" where
  "from_bytes_big bs = foldl (\<lambda>acc b. acc * 256 + b) 0 bs"

definition to_bytes4 :: "int \<Rightarrow> int list" where
  "to_bytes4 n = [n div 16777216 mod 256, n div 65536 mod 256, n div 256 mod 256, n mod 256]"

text \<open>\<open>n.bit_length()\<close>\<close>

function bit_length_nat :: "nat \<Rightarrow> nat" where
  "bit_length_nat n = (if n = 0 then 0 else Suc (bit_length_nat (n div 2)))"
  by pat_completeness auto
termination
  by (relation "measure id") auto

declare bit_length_nat.simps [simp del]

definition bit_length :: "int \<Rightarrow> int" where
  "bit_length n = int (bit_length_nat (nat \<bar>n\<bar>))"

subsection \<open>Addresses and networks\<close>

text \<open>
  An address object holds \<open>_ip\<close> and, for IPv6, \<open>_scope_id\<close>; a network object holds
  \<open>network_address\<close> and \<open>_prefixlen\<close> (the netmask is a function of the latter).
\<close>

datatype address = V4 int | V6 int "string option"

datatype network = Net address int

fun address_int :: "address \<Rightarrow> int" where
  "address_int (V4 n) = n"
| "address_int (V6 n _) = n"

text \<open>\<open>isinstance(ip, ipaddress.IPv4Address)\<close>\<close>

fun isinstance_IPv4Address :: "address \<Rightarrow> bool" where
  "isinstance_IPv4Address (V4 _) = True"
| "isinstance_IPv4Address (V6 _ _) = False"

definition IPV4LENGTH :: int where "IPV4LENGTH = 32"
definition IPV6LENGTH :: int where "IPV6LENGTH = 128"

definition v4_ALL_ONES :: int where "v4_ALL_ONES = 2 ^ 32 - 1"
definition v6_ALL_ONES :: int where "v6_ALL_ONES = 2 ^ 128 - 1"

text \<open>\<open>_ip_int_from_prefix\<close>, \<open>_count_righthand_zero_bits\<close>, \<open>_prefix_from_ip_int\<close>\<close>

definition ip_int_from_prefix :: "int \<Rightarrow> int \<Rightarrow> int" where
  "ip_int_from_prefix all_ones prefixlen = all_ones XOR drop_bit (nat prefixlen) all_ones"

definition count_righthand_zero_bits :: "int \<Rightarrow> int \<Rightarrow> int" where
  "count_righthand_zero_bits number bits =
     (if number = 0 then bits else min bits (bit_length (NOT number AND (number - 1))))"

definition prefix_from_ip_int :: "int \<Rightarrow> int \<Rightarrow> int option" where
  "prefix_from_ip_int max_prefixlen ip_int =
     (let trailing_zeroes = count_righthand_zero_bits ip_int max_prefixlen;
          prefixlen = max_prefixlen - trailing_zeroes;
          leading_ones = drop_bit (nat trailing_zeroes) ip_int;
          all_ones = push_bit (nat prefixlen) 1 - 1
      in if leading_ones \<noteq> all_ones then None else Some prefixlen)"

text \<open>\<open>_prefix_from_prefix_string\<close>\<close>

definition prefix_from_prefix_string :: "int \<Rightarrow> string \<Rightarrow> int option" where
  "prefix_from_prefix_string max_prefixlen prefixlen_str =
     (if \<not> isascii_isdigit prefixlen_str then None
      else case int_of_decimal prefixlen_str of
             None \<Rightarrow> None
           | Some prefixlen \<Rightarrow>
               if \<not> (0 \<le> prefixlen \<and> prefixlen \<le> max_prefixlen) then None else Some prefixlen)"

text \<open>\<open>_split_optional_netmask\<close> and \<open>_split_addr_prefix\<close>: without a mask, the mask
  argument is the integer \<open>_max_prefixlen\<close>.\<close>

datatype mask_arg = MaskStr string | MaskInt int

definition split_optional_netmask :: "string \<Rightarrow> string list option" where
  "split_optional_netmask address =
     (let addr = split (CHR ''/'') address in if length addr > 2 then None else Some addr)"

definition split_addr_prefix :: "int \<Rightarrow> string \<Rightarrow> (string \<times> mask_arg) option" where
  "split_addr_prefix max_prefixlen address =
     (case split_optional_netmask address of
        None \<Rightarrow> None
      | Some (addr # msk # _) \<Rightarrow> Some (addr, MaskStr msk)
      | Some [addr] \<Rightarrow> Some (addr, MaskInt max_prefixlen)
      | Some [] \<Rightarrow> None)"

subsection \<open>IPv4\<close>

text \<open>\<open>_BaseV4._parse_octet\<close>\<close>

definition parse_octet :: "string \<Rightarrow> int option" where
  "parse_octet octet_str =
     (if octet_str = [] then None
      else if \<not> isascii_isdigit octet_str then None
      else if length octet_str > 3 then None
      else if octet_str \<noteq> ''0'' \<and> hd octet_str = CHR ''0'' then None
      else (let octet_int = int_of_str 10 octet_str
            in if octet_int > 255 then None else Some octet_int))"

text \<open>\<open>_BaseV4._ip_int_from_string\<close> and \<open>_BaseV4._string_from_ip_int\<close>\<close>

definition v4_ip_int_from_string :: "string \<Rightarrow> int option" where
  "v4_ip_int_from_string ip_str =
     (if ip_str = [] then None
      else (let octets = split (CHR ''.'') ip_str
            in if length octets \<noteq> 4 then None
               else map_option from_bytes_big (those (map parse_octet octets))))"

definition v4_string_from_ip_int :: "int \<Rightarrow> string" where
  "v4_string_from_ip_int ip_int = join ''.'' (map str_int (to_bytes4 ip_int))"

text \<open>\<open>IPv4Address(addr_str)\<close>\<close>

definition IPv4Address :: "string \<Rightarrow> address option" where
  "IPv4Address addr_str =
     (if CHR ''/'' \<in> set addr_str then None
      else map_option V4 (v4_ip_int_from_string addr_str))"

text \<open>\<open>IPv4Address(s)._ip\<close>\<close>

definition IPv4Address_ip :: "string \<Rightarrow> int option" where
  "IPv4Address_ip s = map_option address_int (IPv4Address s)"

text \<open>\<open>_prefix_from_ip_string\<close> (only IPv4 reaches it) and \<open>_BaseV4._make_netmask\<close>\<close>

definition v4_prefix_from_ip_string :: "string \<Rightarrow> int option" where
  "v4_prefix_from_ip_string ip_str =
     (case v4_ip_int_from_string ip_str of
        None \<Rightarrow> None
      | Some ip_int \<Rightarrow>
          (case prefix_from_ip_int IPV4LENGTH ip_int of
             Some prefixlen \<Rightarrow> Some prefixlen
           | None \<Rightarrow> prefix_from_ip_int IPV4LENGTH (ip_int XOR v4_ALL_ONES)))"

definition v4_make_netmask :: "mask_arg \<Rightarrow> (int \<times> int) option" where
  "v4_make_netmask arg =
     map_option (\<lambda>prefixlen. (ip_int_from_prefix v4_ALL_ONES prefixlen, prefixlen))
       (case arg of
          MaskInt prefixlen \<Rightarrow>
            if \<not> (0 \<le> prefixlen \<and> prefixlen \<le> IPV4LENGTH) then None else Some prefixlen
        | MaskStr arg_str \<Rightarrow>
            (case prefix_from_prefix_string IPV4LENGTH arg_str of
               Some prefixlen \<Rightarrow> Some prefixlen
             | None \<Rightarrow> v4_prefix_from_ip_string arg_str))"

text \<open>\<open>IPv4Network(address, strict=False)\<close>\<close>

definition IPv4Network :: "string \<Rightarrow> network option" where
  "IPv4Network address =
     (case split_addr_prefix IPV4LENGTH address of
        None \<Rightarrow> None
      | Some (addr, msk) \<Rightarrow>
          (case IPv4Address addr of
             None \<Rightarrow> None
           | Some network_address \<Rightarrow>
               (case v4_make_netmask msk of
                  None \<Rightarrow> None
                | Some (netmask, prefixlen) \<Rightarrow>
                    (let packed = address_int network_address
                     in if packed AND netmask \<noteq> packed
                        then Some (Net (V4 (packed AND netmask)) prefixlen)
                        else Some (Net network_address prefixlen)))))"

subsection \<open>IPv6\<close>

text \<open>\<open>_BaseV6._parse_hextet\<close>: \<open>int('', 16)\<close> raises \<open>ValueError\<close>.\<close>

definition parse_hextet :: "string \<Rightarrow> int option" where
  "parse_hextet hextet_str =
     (if \<not> list_all hex_digit hextet_str then None
      else if length hextet_str > 4 then None
      else if hextet_str = [] then None
      else Some (int_of_str 16 hextet_str))"

text \<open>
  The loop of \<open>_ip_int_from_string\<close> that looks for an empty part strictly between the
  ends: the second argument lists the indices still to visit, the third is \<open>skip_index\<close>.
\<close>

fun find_skip_index :: "string list \<Rightarrow> nat list \<Rightarrow> nat option \<Rightarrow> nat option option" where
  "find_skip_index parts [] skip_index = Some skip_index"
| "find_skip_index parts (i # rest) skip_index =
     (if parts ! i = [] then
        (if skip_index \<noteq> None then None else find_skip_index parts rest (Some i))
      else find_skip_index parts rest skip_index)"

text \<open>The two loops that shift the hextets into \<open>ip_int\<close>.\<close>

fun hextet_loop :: "string list \<Rightarrow> int \<Rightarrow> int option" where
  "hextet_loop [] ip_int = Some ip_int"
| "hextet_loop (h # rest) ip_int =
     (case parse_hextet h of
        None \<Rightarrow> None
      | Some v \<Rightarrow> hextet_loop rest (push_bit 16 ip_int OR v))"

text \<open>
  \<open>_BaseV6._ip_int_from_string\<close>, in its steps. First: an IPv4-style suffix is replaced
  by its two hextets in hexadecimal.
\<close>

definition v6_ipv4_suffix :: "string list \<Rightarrow> string list option" where
  "v6_ipv4_suffix parts =
     (if CHR ''.'' \<in> set (last parts)
      then (case IPv4Address_ip (last parts) of
              None \<Rightarrow> None
            | Some ipv4_int \<Rightarrow>
                Some (butlast parts
                      @ [fmt_x (drop_bit 16 ipv4_int AND 0xFFFF), fmt_x (ipv4_int AND 0xFFFF)]))
      else Some parts)"

text \<open>
  The branch with a \<open>::\<close> at \<open>skip_index\<close>. \<open>parts_hi\<close>, \<open>parts_lo\<close> and
  \<open>parts_skipped\<close> are natural numbers: \<open>skip_index\<close> is at least 1 and at most
  \<open>len(parts) - 2\<close>, so no subtraction goes below zero before the test
  \<open>parts_skipped < 1\<close>, which holds exactly when \<open>parts_hi + parts_lo\<close> is at least 8.
\<close>

definition v6_with_skip :: "string list \<Rightarrow> nat \<Rightarrow> int option" where
  "v6_with_skip parts skip_index =
     (let parts_hi = skip_index;
          parts_lo = length parts - skip_index - 1 in
      if hd parts = [] \<and> parts_hi - 1 \<noteq> 0 then None
      else (let parts_hi = (if hd parts = [] then parts_hi - 1 else parts_hi) in
        if last parts = [] \<and> parts_lo - 1 \<noteq> 0 then None
        else (let parts_lo = (if last parts = [] then parts_lo - 1 else parts_lo) in
          if 8 - (parts_hi + parts_lo) < 1 then None
          else (let parts_skipped = 8 - (parts_hi + parts_lo) in
            (case hextet_loop (take parts_hi parts) 0 of
               None \<Rightarrow> None
             | Some ip_int \<Rightarrow>
                 hextet_loop (drop (length parts - parts_lo) parts)
                   (push_bit (16 * parts_skipped) ip_int))))))"

text \<open>The branch without \<open>::\<close>: exactly eight parts, all of them parsed.\<close>

definition v6_without_skip :: "string list \<Rightarrow> int option" where
  "v6_without_skip parts =
     (if length parts \<noteq> 8 then None
      else if hd parts = [] then None
      else if last parts = [] then None
      else hextet_loop (take (length parts) parts) 0)"

definition v6_ip_int_from_string :: "string \<Rightarrow> int option" where
  "v6_ip_int_from_string ip_str =
     (if ip_str = [] then None
      else (let parts0 = split (CHR '':'') ip_str in
        if length parts0 < 3 then None
        else (case v6_ipv4_suffix parts0 of
                None \<Rightarrow> None
              | Some parts \<Rightarrow>
                  if length parts > 9 then None
                  else (case find_skip_index parts [1 ..< length parts - 1] None of
                          None \<Rightarrow> None
                        | Some (Some skip_index) \<Rightarrow> v6_with_skip parts skip_index
                        | Some None \<Rightarrow> v6_without_skip parts))))"

text \<open>
  The loop of \<open>_compress_hextets\<close> over \<open>enumerate(hextets)\<close>; the state is
  \<open>(best_doublecolon_start, best_doublecolon_len, doublecolon_start, doublecolon_len)\<close>.
\<close>

fun compress_loop :: "string list \<Rightarrow> int \<Rightarrow> int \<times> int \<times> int \<times> int \<Rightarrow> int \<times> int \<times> int \<times> int" where
  "compress_loop [] index st = st"
| "compress_loop (hextet # rest) index (best_start, best_len, dc_start, dc_len) =
     (if hextet = ''0'' then
        (let dc_len = dc_len + 1;
             dc_start = (if dc_start = - 1 then index else dc_start)
         in if dc_len > best_len
            then compress_loop rest (index + 1) (dc_start, dc_len, dc_start, dc_len)
            else compress_loop rest (index + 1) (best_start, best_len, dc_start, dc_len))
      else compress_loop rest (index + 1) (best_start, best_len, - 1, 0))"

definition compress_hextets :: "string list \<Rightarrow> string list" where
  "compress_hextets hextets =
     (case compress_loop hextets 0 (- 1, 0, - 1, 0) of
        (best_doublecolon_start, best_doublecolon_len, _, _) \<Rightarrow>
          if best_doublecolon_len > 1 then
            (let best_doublecolon_end = best_doublecolon_start + best_doublecolon_len;
                 hextets1 = (if best_doublecolon_end = int (length hextets)
                             then hextets @ [[]] else hextets);
                 hextets2 = take (nat best_doublecolon_start) hextets1 @ [[]]
                            @ drop (nat best_doublecolon_end) hextets1
             in if best_doublecolon_start = 0 then [[]] @ hextets2 else hextets2)
          else hextets)"

text \<open>\<open>_BaseV6._string_from_ip_int\<close> (for \<open>0 \<le> ip_int \<le> _ALL_ONES\<close>)\<close>

definition v6_string_from_ip_int :: "int \<Rightarrow> string" where
  "v6_string_from_ip_int ip_int =
     (let hex_str = fmt_032x ip_int;
          hextets = map (\<lambda>x. fmt_x (int_of_str 16 (take 4 (drop x hex_str))))
                        [0, 4, 8, 12, 16, 20, 24, 28]
      in join '':'' (compress_hextets hextets))"

text \<open>\<open>_split_scope_id\<close> and \<open>IPv6Address(addr_str)\<close>\<close>

definition split_scope_id :: "string \<Rightarrow> (string \<times> string option) option" where
  "split_scope_id ip_str =
     (case dropWhile (\<lambda>c. c \<noteq> CHR ''%'') ip_str of
        [] \<Rightarrow> Some (ip_str, None)
      | _ # scope_id \<Rightarrow>
          if scope_id = [] \<or> CHR ''%'' \<in> set scope_id then None
          else Some (takeWhile (\<lambda>c. c \<noteq> CHR ''%'') ip_str, Some scope_id))"

definition IPv6Address :: "string \<Rightarrow> address option" where
  "IPv6Address addr_str =
     (if CHR ''/'' \<in> set addr_str then None
      else (case split_scope_id addr_str of
              None \<Rightarrow> None
            | Some (addr, scope_id) \<Rightarrow>
                map_option (\<lambda>ip. V6 ip scope_id) (v6_ip_int_from_string addr)))"

text \<open>\<open>_BaseV6._make_netmask\<close> and \<open>IPv6Network(address, strict=False)\<close>\<close>

definition v6_make_netmask :: "mask_arg \<Rightarrow> (int \<times> int) option" where
  "v6_make_netmask arg =
     map_option (\<lambda>prefixlen. (ip_int_from_prefix v6_ALL_ONES prefixlen, prefixlen))
       (case arg of
          MaskInt prefixlen \<Rightarrow>
            if \<not> (0 \<le> prefixlen \<and> prefixlen \<le> IPV6LENGTH) then None else Some prefixlen
        | MaskStr arg_str \<Rightarrow> prefix_from_prefix_string IPV6LENGTH arg_str)"

definition IPv6Network :: "string \<Rightarrow> network option" where
  "IPv6Network address =
     (case split_addr_prefix IPV6LENGTH address of
        None \<Rightarrow> None
      | Some (addr, msk) \<Rightarrow>
          (case IPv6Address addr of
             None \<Rightarrow> None
           | Some network_address \<Rightarrow>
               (case v6_make_netmask msk of
                  None \<Rightarrow> None
                | Some (netmask, prefixlen) \<Rightarrow>
                    (let packed = address_int network_address
                     in if packed AND netmask \<noteq> packed
                        then Some (Net (V6 (packed AND netmask) None) prefixlen)
                        else Some (Net network_address prefixlen)))))"

subsection \<open>The functions the scripts call\<close>

text \<open>\<open>ipaddress.ip_address(address)\<close> and \<open>ipaddress.ip_network(address, strict=False)\<close>\<close>

definition ip_address :: "string \<Rightarrow> address option" where
  "ip_address address =
     (case IPv4Address address of
        Some a \<Rightarrow> Some a
      | None \<Rightarrow> IPv6Address address)"

definition ip_network :: "string \<Rightarrow> network option" where
  "ip_network address =
     (case IPv4Network address of
        Some n \<Rightarrow> Some n
      | None \<Rightarrow> IPv6Network address)"

text \<open>\<open>str(ip)\<close> and \<open>str(net)\<close>\<close>

fun str_address :: "address \<Rightarrow> string" where
  "str_address (V4 ip) = v4_string_from_ip_int ip"
| "str_address (V6 ip scope_id) =
     (let ip_str = v6_string_from_ip_int ip
      in case scope_id of
           None \<Rightarrow> ip_str
         | Some sc \<Rightarrow> if sc \<noteq> [] then ip_str @ ''%'' @ sc else ip_str)"

fun str_network :: "network \<Rightarrow> string" where
  "str_network (Net network_address prefixlen) =
     str_address network_address @ ''/'' @ str_int prefixlen"

section \<open>ip.py\<close>

text \<open>
  \<open>normalize_ip_or_cidr\<close> of ip.py. The result \<open>Inr None\<close> is the returned \<open>None\<close>;
  each \<open>try\<close> block is the option that is \<open>None\<close> when a \<open>ValueError\<close> was caught.
\<close>

definition ip_normalize_ip_or_cidr :: "string \<Rightarrow> py_error + string option" where
  "ip_normalize_ip_or_cidr line =
     (let s = strip line in
      if startswith (upper s) ''IP-CIDR,'' then
        (case item1 (split_max1 (CHR '','') s) of
           Inl e \<Rightarrow> Inl e
         | Inr after_comma \<Rightarrow>
             (let body = strip after_comma;
                  parts = map strip (split (CHR '','') body);
                  cidr_raw = (case parts of [] \<Rightarrow> [] | p # _ \<Rightarrow> p)
              in case (if CHR ''/'' \<in> set cidr_raw
                       then map_option str_network (ip_network cidr_raw)
                       else map_option
                              (\<lambda>ip. if isinstance_IPv4Address ip
                                    then str_address ip @ ''/32''
                                    else str_address ip @ ''/128'')
                              (ip_address cidr_raw)) of
                   Some cidr \<Rightarrow> Inr (Some (''IP-CIDR,'' @ cidr @ '',no-resolve''))
                 | None \<Rightarrow> Inr None))
      else if s = [] \<or> startswith s ''#'' then Inr (Some s)
      else
        (case (if CHR ''/'' \<in> set s
               then map_option (\<lambda>net. ''IP-CIDR,'' @ str_network net @ '',no-resolve'')
                      (ip_network s)
               else None) of
           Some res \<Rightarrow> Inr (Some res)
         | None \<Rightarrow>
             (case ip_address s of
                Some ip \<Rightarrow>
                  (let cidr = (if isinstance_IPv4Address ip
                               then str_address ip @ ''/32''
                               else str_address ip @ ''/128'')
                   in Inr (Some (''IP-CIDR,'' @ cidr @ '',no-resolve'')))
              | None \<Rightarrow> Inr None)))"

text \<open>
  The loop of \<open>process_lst_file\<close> in ip.py, with its accumulators \<open>out_lines\<close>,
  \<open>changed\<close> and \<open>kept\<close>.
\<close>

fun ip_loop :: "string list \<Rightarrow> string list \<Rightarrow> nat \<Rightarrow> nat \<Rightarrow> py_error + (string list \<times> nat \<times> nat)" where
  "ip_loop [] out_lines changed kept = Inr (out_lines, changed, kept)"
| "ip_loop (raw # rest) out_lines changed kept =
     (case ip_normalize_ip_or_cidr raw of
        Inl e \<Rightarrow> Inl e
      | Inr None \<Rightarrow> ip_loop rest out_lines changed kept
      | Inr (Some res) \<Rightarrow>
          if res = raw then ip_loop rest (out_lines @ [raw]) changed (kept + 1)
          else ip_loop rest (out_lines @ [res]) (changed + 1) kept)"

definition ip_process_lst_file :: "fs \<Rightarrow> path \<Rightarrow> py_error + (fs \<times> nat \<times> nat)" where
  "ip_process_lst_file files p =
     (case read_text files p of
        Inl e \<Rightarrow> Inl e
      | Inr text \<Rightarrow>
          (let src_lines = splitlines text
           in case ip_loop src_lines [] 0 0 of
                Inl e \<Rightarrow> Inl e
              | Inr (out_lines, changed, kept) \<Rightarrow>
                  (let files1 = (if MAKE_BACKUP
                                 then write_text files (bak_path p) (join [CHR 0x0A] src_lines)
                                 else files);
                       files2 = write_text files1 p (join [CHR 0x0A] out_lines @ [CHR 0x0A])
                   in Inr (files2, changed, kept))))"

section \<open>domains_ip.py: the IP lists\<close>

text \<open>\<open>normalize_ip_or_cidr\<close> of domains_ip.py: a blank line or a comment is returned as
  \<open>line\<close>, not as \<open>s\<close>.\<close>

definition normalize_ip_or_cidr :: "string \<Rightarrow> py_error + string option" where
  "normalize_ip_or_cidr line =
     (let s = strip line in
      if startswith (upper s) ''IP-CIDR,'' then
        (case item1 (split_max1 (CHR '','') s) of
           Inl e \<Rightarrow> Inl e
         | Inr after_comma \<Rightarrow>
             (let body = strip after_comma;
                  parts = map strip (split (CHR '','') body);
                  cidr_raw = (case parts of [] \<Rightarrow> [] | p # _ \<Rightarrow> p)
              in case (if CHR ''/'' \<in> set cidr_raw
                       then map_option str_network (ip_network cidr_raw)
                       else map_option
                              (\<lambda>ip. if isinstance_IPv4Address ip
                                    then str_address ip @ ''/32''
                                    else str_address ip @ ''/128'')
                              (ip_address cidr_raw)) of
                   Some cidr \<Rightarrow> Inr (Some (''IP-CIDR,'' @ cidr @ '',no-resolve''))
                 | None \<Rightarrow> Inr None))
      else if s = [] \<or> startswith s ''#'' then Inr (Some line)
      else
        (case (if CHR ''/'' \<in> set s
               then map_option (\<lambda>net. ''IP-CIDR,'' @ str_network net @ '',no-resolve'')
                      (ip_network s)
               else None) of
           Some res \<Rightarrow> Inr (Some res)
         | None \<Rightarrow>
             (case ip_address s of
                Some ip \<Rightarrow>
                  (let cidr = (if isinstance_IPv4Address ip
                               then str_address ip @ ''/32''
                               else str_address ip @ ''/128'')
                   in Inr (Some (''IP-CIDR,'' @ cidr @ '',no-resolve'')))
              | None \<Rightarrow> Inr None)))"

fun process_ip_loop :: "string list \<Rightarrow> string list \<Rightarrow> nat \<Rightarrow> nat \<Rightarrow> py_error + (string list \<times> nat \<times> nat)" where
  "process_ip_loop [] out_lines changed kept = Inr (out_lines, changed, kept)"
| "process_ip_loop (raw # rest) out_lines changed kept =
     (case normalize_ip_or_cidr raw of
        Inl e \<Rightarrow> Inl e
      | Inr None \<Rightarrow> process_ip_loop rest out_lines changed kept
      | Inr (Some res) \<Rightarrow>
          if res = raw then process_ip_loop rest (out_lines @ [raw]) changed (kept + 1)
          else process_ip_loop rest (out_lines @ [res]) (changed + 1) kept)"

definition process_ip_lst_file :: "fs \<Rightarrow> path \<Rightarrow> py_error + (fs \<times> nat \<times> nat)" where
  "process_ip_lst_file files p =
     (case read_text files p of
        Inl e \<Rightarrow> Inl e
      | Inr text \<Rightarrow>
          (let src_lines = splitlines text
           in case process_ip_loop src_lines [] 0 0 of
                Inl e \<Rightarrow> Inl e
              | Inr (out_lines, changed, kept) \<Rightarrow>
                  (let files1 = (if MAKE_BACKUP
                                 then write_text files (bak_path p) (join [CHR 0x0A] src_lines)
                                 else files);
                       files2 = write_text files1 p (join [CHR 0x0A] out_lines @ [CHR 0x0A])
                   in Inr (files2, changed, kept))))"

section \<open>The specification's words\<close>

text \<open>
  The domain-list contract as the specification words it: a blank line and a comment line
  (its first character that is not whitespace is \<open>#\<close>) are unchanged, a line whose
  trimmed form starts with the literal prefix is kept trimmed, any other line gets the
  prefix before its trimmed content.
\<close>

definition spec_blank :: "string \<Rightarrow> bool" where
  "spec_blank raw = list_all isspace raw"

definition spec_comment :: "string \<Rightarrow> bool" where
  "spec_comment raw = (case dropWhile isspace raw of [] \<Rightarrow> False | c # _ \<Rightarrow> c = CHR ''#'')"

definition spec_domain_line :: "string \<Rightarrow> string" where
  "spec_domain_line raw =
     (if spec_blank raw then raw
      else if spec_comment raw then raw
      else if startswith (strip raw) ''DOMAIN-SUFFIX,'' then strip raw
      else ''DOMAIN-SUFFIX,'' @ strip raw)"

definition spec_new_prefix :: "string \<Rightarrow> bool" where
  "spec_new_prefix raw =
     (\<not> spec_blank raw \<and> \<not> spec_comment raw \<and> \<not> startswith (strip raw) ''DOMAIN-SUFFIX,'')"

text \<open>
  The IP rule as the specification words it: the candidate is the first comma-separated
  field; a candidate with a \<open>/\<close> is parsed as a network, one without as a bare address
  that gets \<open>/32\<close> (IPv4) or \<open>/128\<close> (IPv6); the rule is the prefix, the canonical CIDR
  and the no-resolve flag.
\<close>

definition spec_rule :: "string \<Rightarrow> string" where
  "spec_rule cidr = ''IP-CIDR,'' @ cidr @ '',no-resolve''"

definition spec_candidate_cidr :: "string \<Rightarrow> string option" where
  "spec_candidate_cidr cand =
     (if CHR ''/'' \<in> set cand then map_option str_network (ip_network cand)
      else map_option
             (\<lambda>ip. str_address ip @ (if isinstance_IPv4Address ip then ''/32'' else ''/128''))
             (ip_address cand))"

definition spec_first_field :: "string \<Rightarrow> string" where
  "spec_first_field body = strip (takeWhile (\<lambda>c. c \<noteq> CHR '','') body)"

text \<open>
  The whole-file IP transformation in words: the output lines are the results of the lines
  that are not dropped, in order; a line counts as changed when its result differs from
  the raw line, as kept when it is the raw line, as dropped when the result is \<open>None\<close>.
\<close>

definition out_of :: "(string \<Rightarrow> py_error + string option) \<Rightarrow> string list \<Rightarrow> string list" where
  "out_of f ls = concat (map (\<lambda>raw. case f raw of Inr (Some res) \<Rightarrow> [res] | _ \<Rightarrow> []) ls)"

definition changed_of :: "(string \<Rightarrow> py_error + string option) \<Rightarrow> string list \<Rightarrow> nat" where
  "changed_of f ls =
     length (filter (\<lambda>raw. case f raw of Inr (Some res) \<Rightarrow> res \<noteq> raw | _ \<Rightarrow> False) ls)"

definition kept_of :: "(string \<Rightarrow> py_error + string option) \<Rightarrow> string list \<Rightarrow> nat" where
  "kept_of f ls = length (filter (\<lambda>raw. f raw = Inr (Some raw)) ls)"

definition dropped_of :: "(string \<Rightarrow> py_error + string option) \<Rightarrow> string list \<Rightarrow> nat" where
  "dropped_of f ls = length (filter (\<lambda>raw. f raw = Inr None) ls)"

text \<open>
  The text of a file after a run (\<open>None\<close> when the run raised or the file does not
  exist), the texts whose only line boundary is LF, and a text without its final LF.
\<close>

definition file_after :: "py_error + (fs \<times> 'a) \<Rightarrow> path \<Rightarrow> string option" where
  "file_after result p = (case result of Inl _ \<Rightarrow> None | Inr (files, _) \<Rightarrow> files p)"

definition only_lf :: "string \<Rightarrow> bool" where
  "only_lf t = list_all (\<lambda>c. is_linebreak c \<longrightarrow> c = CHR 0x0A) t"

definition chomp :: "string \<Rightarrow> string" where
  "chomp t = (if t \<noteq> [] \<and> last t = CHR 0x0A then butlast t else t)"


text \<open>
  A line that parses: as an address, as a network, or as an already-prefixed rule whose
  candidate parses.
\<close>

definition spec_parseable :: "string \<Rightarrow> bool" where
  "spec_parseable s =
     (ip_address s \<noteq> None \<or> ip_network s \<noteq> None
      \<or> (startswith (upper s) ''IP-CIDR,''
          \<and> spec_candidate_cidr (spec_first_field (strip (drop 8 s))) \<noteq> None))"

text \<open>
  The values that the constructors of the module build: the address is in the range of its
  family, the prefix length too, the host bits are zero, and a zone identifier is not empty
  and holds neither \<open>%\<close> nor \<open>/\<close>.
\<close>

definition wf_network :: "network \<Rightarrow> bool" where
  "wf_network net =
     (case net of
        Net (V4 n) p \<Rightarrow>
          0 \<le> n \<and> n \<le> v4_ALL_ONES \<and> 0 \<le> p \<and> p \<le> IPV4LENGTH
          \<and> n AND drop_bit (nat p) v4_ALL_ONES = 0
      | Net (V6 n sc) p \<Rightarrow>
          0 \<le> n \<and> n \<le> v6_ALL_ONES \<and> 0 \<le> p \<and> p \<le> IPV6LENGTH
          \<and> n AND drop_bit (nat p) v6_ALL_ONES = 0
          \<and> (case sc of
                None \<Rightarrow> True
              | Some z \<Rightarrow> z \<noteq> [] \<and> CHR ''%'' \<notin> set z \<and> CHR ''/'' \<notin> set z))"

text \<open>
  The hexadecimal digits of a number at a fixed width, most significant first, and the
  number that eight hextets stand for.
\<close>

fun hexfix :: "nat \<Rightarrow> nat \<Rightarrow> string" where
  "hexfix 0 n = []"
| "hexfix (Suc w) n = hexfix w (n div 16) @ [digit_chr (n mod 16)]"

definition horner16 :: "int \<Rightarrow> int list \<Rightarrow> int" where
  "horner16 acc vs = foldl (\<lambda>a v. a * 65536 + v) acc vs"

text \<open>A run of \<open>0\<close> hextets of length \<open>l\<close> that starts at index \<open>s\<close>.\<close>

definition zero_run :: "string list \<Rightarrow> int \<Rightarrow> int \<Rightarrow> bool" where
  "zero_run xs s l =
     (0 \<le> s \<and> 1 \<le> l \<and> s + l \<le> int (length xs)
      \<and> list_all (\<lambda>h. h = ''0'') (take (nat l) (drop (nat s) xs)))"

text \<open>
  The rewritten file in words: every line is followed by one LF, and no line at all gives
  the text of a single LF. \<open>trailing_newlines\<close> counts the LF characters at the end of a
  text. \<open>rewritten_as out ls\<close> says that the text \<open>out\<close> is the text of the lines \<open>ls\<close>,
  and that this text ends in exactly one LF precisely when there is at most one line or the
  last line is not empty.
\<close>

definition trailing_newlines :: "string \<Rightarrow> nat" where
  "trailing_newlines t = length (takeWhile (\<lambda>c. c = CHR 0x0A) (rev t))"

fun lines_text :: "string list \<Rightarrow> string" where
  "lines_text [] = [CHR 0x0A]"
| "lines_text (l # ls) = concat (map (\<lambda>x. x @ [CHR 0x0A]) (l # ls))"

definition rewritten_as :: "string option \<Rightarrow> string list \<Rightarrow> bool" where
  "rewritten_as out ls =
     (out = Some (lines_text ls)
      \<and> (trailing_newlines (lines_text ls) = 1) = (length ls \<le> 1 \<or> last ls \<noteq> []))"

section \<open>Facts about the text primitives\<close>

lemma strip_Nil_iff: "strip s = [] \<longleftrightarrow> dropWhile isspace s = []"
proof (cases "dropWhile isspace s")
  case Nil
  show ?thesis unfolding strip_def Nil by simp
next
  case (Cons c t)
  then have "\<not> isspace c" using hd_dropWhile[of isspace s] by auto
  then show ?thesis using Cons by (auto simp: strip_def)
qed

lemma strip_Cons:
  assumes "dropWhile isspace s = c # t"
  shows "strip s = c # rev (dropWhile isspace (rev t))"
proof -
  have "\<not> isspace c" using assms hd_dropWhile[of isspace s] by auto
  then show ?thesis by (simp add: strip_def assms dropWhile_append3)
qed

lemma strip_hd: "strip s \<noteq> [] \<Longrightarrow> hd (strip s) = hd (dropWhile isspace s)"
  by (cases "dropWhile isspace s") (simp_all add: strip_Nil_iff strip_Cons)

lemma strip_hd_not_space: "strip s \<noteq> [] \<Longrightarrow> \<not> isspace (hd (strip s))"
  using hd_dropWhile[of isspace s] by (simp add: strip_hd strip_Nil_iff)

lemma strip_last_not_space: "strip s \<noteq> [] \<Longrightarrow> \<not> isspace (last (strip s))"
proof -
  assume a: "strip s \<noteq> []"
  let ?r = "dropWhile isspace (rev (dropWhile isspace s))"
  have "?r \<noteq> []" using a by (simp add: strip_def)
  then have "\<not> isspace (hd ?r)" by (rule hd_dropWhile)
  moreover have "last (strip s) = hd ?r" using \<open>?r \<noteq> []\<close> by (simp add: strip_def last_rev)
  ultimately show ?thesis by simp
qed

lemma strip_id: "s \<noteq> [] \<Longrightarrow> \<not> isspace (hd s) \<Longrightarrow> \<not> isspace (last s) \<Longrightarrow> strip s = s"
proof -
  assume a: "s \<noteq> []" "\<not> isspace (hd s)" "\<not> isspace (last s)"
  then have 1: "dropWhile isspace s = s" by (cases s) auto
  have "rev s \<noteq> []" "\<not> isspace (hd (rev s))" using a by (simp_all add: hd_rev)
  then have "dropWhile isspace (rev s) = rev s" by (cases "rev s") auto
  then show ?thesis by (simp add: strip_def 1)
qed

lemma strip_strip: "strip (strip s) = strip s"
proof (cases "strip s = []")
  case True then show ?thesis by (simp add: strip_def del: dropWhile_eq_Nil_conv)
next
  case False then show ?thesis by (intro strip_id strip_hd_not_space strip_last_not_space)
qed

lemma of_char_upper_cases:
  "upper_chr c = c \<or> (65 \<le> (of_char (upper_chr c) :: nat) \<and> (of_char (upper_chr c) :: nat) \<le> 90)"
  by (auto simp: upper_chr_def Let_def)

section \<open>The domain-list normalizer\<close>

lemma spec_blank_iff: "spec_blank raw \<longleftrightarrow> strip raw = []"
  by (simp add: spec_blank_def strip_Nil_iff list_all_iff)

lemma startswith_hash: "startswith s ''#'' \<longleftrightarrow> (s \<noteq> [] \<and> hd s = CHR ''#'')"
  by (cases s) (auto simp: startswith_def)

lemma spec_comment_iff: "spec_comment raw \<longleftrightarrow> startswith (strip raw) ''#''"
proof (cases "dropWhile isspace raw")
  case Nil
  then have "strip raw = []" by (simp only: strip_Nil_iff)
  then show ?thesis unfolding spec_comment_def Nil by (simp add: startswith_def)
next
  case (Cons c t)
  then show ?thesis unfolding spec_comment_def by (simp add: strip_Cons startswith_def)
qed

lemma domains_loop_eq:
  "domains_loop ls out_lines changed =
     (out_lines @ map spec_domain_line ls, changed + length (filter spec_new_prefix ls))"
  by (induction ls arbitrary: out_lines changed)
     (simp_all add: Let_def spec_domain_line_def spec_new_prefix_def spec_blank_iff spec_comment_iff)

lemma process_domain_loop_eq:
  "process_domain_loop ls out_lines changed =
     (out_lines @ map spec_domain_line ls, changed + length (filter spec_new_prefix ls))"
  by (induction ls arbitrary: out_lines changed)
     (simp_all add: Let_def spec_domain_line_def spec_new_prefix_def spec_blank_iff spec_comment_iff)

text \<open>
  Claim C7. For every sequence of lines the loops of domains.py and of domains_ip.py return
  a sequence of the same length, each line transformed on its own as the specification
  words it, together with the number of lines that received a new prefix.
\<close>

theorem C7_domain_normalizer:
  "domains_loop ls [] 0 = (map spec_domain_line ls, length (filter spec_new_prefix ls))
   \<and> process_domain_loop ls [] 0 = (map spec_domain_line ls, length (filter spec_new_prefix ls))
   \<and> length (fst (domains_loop ls [] 0)) = length ls
   \<and> length (fst (process_domain_loop ls [] 0)) = length ls"
  by (simp add: domains_loop_eq process_domain_loop_eq)

theorem C7_domain_normalizer_witness:
  "domains_loop [''example.com'', ''  DOMAIN-SUFFIX,x.org '', '' # note'', '' ''] [] 0
     = ([''DOMAIN-SUFFIX,example.com'', ''DOMAIN-SUFFIX,x.org'', '' # note'', '' ''], 1)"
  using C7_domain_normalizer [of "[''example.com'', ''  DOMAIN-SUFFIX,x.org '', '' # note'', '' '']"]
  by (simp add: spec_domain_line_def spec_new_prefix_def spec_blank_def spec_comment_def
      strip_def startswith_def isspace_def)

section \<open>The already-prefixed form\<close>

lemma upper_chr_eq_comma: "upper_chr c = CHR '','' \<longleftrightarrow> c = CHR '',''"
  using of_char_upper_cases[of c] by (auto simp: upper_chr_def Let_def)

lemma upper_chr_eq_hash: "upper_chr c = CHR ''#'' \<longleftrightarrow> c = CHR ''#''"
  using of_char_upper_cases[of c] by (auto simp: upper_chr_def Let_def)

lemma upper_chr_idem: "upper_chr (upper_chr c) = upper_chr c"
  using of_char_upper_cases[of c] by (auto simp: upper_chr_def Let_def)

lemma upper_chr_not_space: "isspace (upper_chr c) \<longleftrightarrow> isspace c"
  using of_char_upper_cases[of c] by (auto simp: upper_chr_def Let_def isspace_def)

lemma prefixed_shape:
  assumes "startswith (upper s) ''IP-CIDR,''"
  obtains c0 c1 c2 c3 c4 c5 c6 r where
    "s = c0 # c1 # c2 # c3 # c4 # c5 # c6 # CHR '','' # r"
    "upper_chr c0 = CHR ''I''" "upper_chr c1 = CHR ''P''" "upper_chr c2 = CHR ''-''"
    "upper_chr c3 = CHR ''C''" "upper_chr c4 = CHR ''I''" "upper_chr c5 = CHR ''D''"
    "upper_chr c6 = CHR ''R''"
proof -
  from assms have "map upper_chr (take 8 s) = ''IP-CIDR,''"
    by (simp add: startswith_def upper_def take_map eval_nat_numeral)
  then obtain c0 c1 c2 c3 c4 c5 c6 c7 where
    t: "take 8 s = [c0, c1, c2, c3, c4, c5, c6, c7]"
    and u: "upper_chr c0 = CHR ''I''" "upper_chr c1 = CHR ''P''" "upper_chr c2 = CHR ''-''"
    "upper_chr c3 = CHR ''C''" "upper_chr c4 = CHR ''I''" "upper_chr c5 = CHR ''D''"
    "upper_chr c6 = CHR ''R''" "upper_chr c7 = CHR '',''"
    by (auto simp: map_eq_Cons_conv)
  have "s = take 8 s @ drop 8 s" by simp
  then have "s = c0 # c1 # c2 # c3 # c4 # c5 # c6 # CHR '','' # drop 8 s"
    using t u(8) by (simp add: upper_chr_eq_comma)
  then show ?thesis using that u by blast
qed

lemma prefixed_split:
  assumes "startswith (upper s) ''IP-CIDR,''"
  shows "item1 (split_max1 (CHR '','') s) = Inr (drop 8 s)"
proof -
  from assms obtain c0 c1 c2 c3 c4 c5 c6 r where
    s: "s = c0 # c1 # c2 # c3 # c4 # c5 # c6 # CHR '','' # r" and
    u: "upper_chr c0 = CHR ''I''" "upper_chr c1 = CHR ''P''" "upper_chr c2 = CHR ''-''"
    "upper_chr c3 = CHR ''C''" "upper_chr c4 = CHR ''I''" "upper_chr c5 = CHR ''D''"
    "upper_chr c6 = CHR ''R''"
    by (rule prefixed_shape)
  have "c0 \<noteq> CHR '',''" "c1 \<noteq> CHR '',''" "c2 \<noteq> CHR '',''" "c3 \<noteq> CHR '',''"
    "c4 \<noteq> CHR '',''" "c5 \<noteq> CHR '',''" "c6 \<noteq> CHR '',''"
    using u upper_chr_eq_comma[of c0] upper_chr_eq_comma[of c1] upper_chr_eq_comma[of c2]
      upper_chr_eq_comma[of c3] upper_chr_eq_comma[of c4] upper_chr_eq_comma[of c5]
      upper_chr_eq_comma[of c6] by auto
  then show ?thesis unfolding s split_max1_def by simp
qed

lemma prefixed_not_passthrough:
  assumes "startswith (upper s) ''IP-CIDR,''"
  shows "s \<noteq> []" "hd s \<noteq> CHR ''#''" "\<not> startswith s ''#''"
proof -
  from assms obtain c0 r where s: "s = c0 # r" and u: "upper_chr c0 = CHR ''I''"
    by (rule prefixed_shape)
  show "s \<noteq> []" by (simp add: s)
  show "hd s \<noteq> CHR ''#''" using u upper_chr_eq_hash[of c0] by (auto simp: s)
  then show "\<not> startswith s ''#''" by (simp add: startswith_hash)
qed

lemma split_nonempty: "split sep s \<noteq> []"
  by (induction s) (auto split: list.splits)

lemma hd_split: "hd (split sep s) = takeWhile (\<lambda>c. c \<noteq> sep) s"
  using split_nonempty[of sep] by (induction s) (auto split: list.splits)

lemma first_part: "(case map strip (split sep body) of [] \<Rightarrow> [] | p # _ \<Rightarrow> p)
    = strip (takeWhile (\<lambda>c. c \<noteq> sep) body)"
  using split_nonempty[of sep body] hd_split[of sep body]
  by (cases "split sep body") auto

lemma ip_normalize_prefixed:
  assumes "startswith (upper (strip line)) ''IP-CIDR,''"
  shows "ip_normalize_ip_or_cidr line =
     Inr (map_option spec_rule (spec_candidate_cidr (spec_first_field (strip (drop 8 (strip line))))))"
  unfolding ip_normalize_ip_or_cidr_def Let_def first_part
  using assms
  by (simp add: prefixed_split spec_rule_def spec_candidate_cidr_def spec_first_field_def
      split: option.splits)

lemma normalize_prefixed:
  assumes "startswith (upper (strip line)) ''IP-CIDR,''"
  shows "normalize_ip_or_cidr line =
     Inr (map_option spec_rule (spec_candidate_cidr (spec_first_field (strip (drop 8 (strip line))))))"
  unfolding normalize_ip_or_cidr_def Let_def first_part
  using assms
  by (simp add: prefixed_split spec_rule_def spec_candidate_cidr_def spec_first_field_def
      split: option.splits)

section \<open>The IP loops\<close>

lemma ip_normalize_total: "\<exists>r. ip_normalize_ip_or_cidr line = Inr r"
proof (cases "startswith (upper (strip line)) ''IP-CIDR,''")
  case True
  then show ?thesis by (simp add: ip_normalize_prefixed)
next
  case False
  then show ?thesis
    by (simp add: ip_normalize_ip_or_cidr_def Let_def split: option.splits)
qed

lemma normalize_total: "\<exists>r. normalize_ip_or_cidr line = Inr r"
proof (cases "startswith (upper (strip line)) ''IP-CIDR,''")
  case True
  then show ?thesis by (simp add: normalize_prefixed)
next
  case False
  then show ?thesis
    by (simp add: normalize_ip_or_cidr_def Let_def split: option.splits)
qed

lemma ip_loop_eq:
  "ip_loop ls out_lines changed kept =
     Inr (out_lines @ out_of ip_normalize_ip_or_cidr ls,
          changed + changed_of ip_normalize_ip_or_cidr ls,
          kept + kept_of ip_normalize_ip_or_cidr ls)"
proof (induction ls arbitrary: out_lines changed kept)
  case Nil
  show ?case by (simp add: out_of_def changed_of_def kept_of_def)
next
  case (Cons raw rest)
  obtain r where r: "ip_normalize_ip_or_cidr raw = Inr r" using ip_normalize_total by blast
  show ?case
  proof (cases r)
    case None
    then show ?thesis using r Cons by (simp add: out_of_def changed_of_def kept_of_def)
  next
    case (Some res)
    then show ?thesis using r Cons by (simp add: out_of_def changed_of_def kept_of_def)
  qed
qed

lemma process_ip_loop_eq:
  "process_ip_loop ls out_lines changed kept =
     Inr (out_lines @ out_of normalize_ip_or_cidr ls,
          changed + changed_of normalize_ip_or_cidr ls,
          kept + kept_of normalize_ip_or_cidr ls)"
proof (induction ls arbitrary: out_lines changed kept)
  case Nil
  show ?case by (simp add: out_of_def changed_of_def kept_of_def)
next
  case (Cons raw rest)
  obtain r where r: "normalize_ip_or_cidr raw = Inr r" using normalize_total by blast
  show ?case
  proof (cases r)
    case None
    then show ?thesis using r Cons by (simp add: out_of_def changed_of_def kept_of_def)
  next
    case (Some res)
    then show ?thesis using r Cons by (simp add: out_of_def changed_of_def kept_of_def)
  qed
qed

lemma counts_total:
  assumes "\<And>raw. \<exists>r. f raw = Inr r"
  shows "length (out_of f ls) = changed_of f ls + kept_of f ls"
    and "length (out_of f ls) + dropped_of f ls = length ls"
proof -
  have "length (out_of f ls) = changed_of f ls + kept_of f ls
      \<and> length (out_of f ls) + dropped_of f ls = length ls"
  proof (induction ls)
    case Nil
    show ?case by (simp add: out_of_def changed_of_def kept_of_def dropped_of_def)
  next
    case (Cons raw rest)
    obtain r where r: "f raw = Inr r" using assms by blast
    show ?case using Cons r
      by (cases r) (auto simp: out_of_def changed_of_def kept_of_def dropped_of_def)
  qed
  then show "length (out_of f ls) = changed_of f ls + kept_of f ls"
    and "length (out_of f ls) + dropped_of f ls = length ls" by simp_all
qed

section \<open>Pass-through lines and letter case\<close>

text \<open>
  Claim C3. When the trimmed line starts, in any letter case, with \<open>IP-CIDR,\<close>, both
  normalizers strip the eight characters of the prefix, take the first comma-separated
  field of the rest as the candidate and nothing else of the line, and return the rule
  built from the candidate's canonical CIDR, always with \<open>,no-resolve\<close>; when the
  candidate does not parse the result is \<open>None\<close>, with no second attempt.
\<close>

theorem C3_prefixed_form:
  assumes "startswith (upper (strip line)) ''IP-CIDR,''"
  shows "ip_normalize_ip_or_cidr line =
           Inr (map_option spec_rule
                  (spec_candidate_cidr (spec_first_field (strip (drop 8 (strip line))))))
       \<and> normalize_ip_or_cidr line =
           Inr (map_option spec_rule
                  (spec_candidate_cidr (spec_first_field (strip (drop 8 (strip line))))))
       \<and> (spec_candidate_cidr (spec_first_field (strip (drop 8 (strip line)))) = None
           \<longrightarrow> ip_normalize_ip_or_cidr line = Inr None \<and> normalize_ip_or_cidr line = Inr None)"
  using assms by (simp add: ip_normalize_prefixed normalize_prefixed)

theorem C3_prefixed_form_witness:
  "ip_normalize_ip_or_cidr ''ip-cidr, 10.1.2.3/24 ,x,y'' = Inr (Some ''IP-CIDR,10.1.2.0/24,no-resolve'')
   \<and> normalize_ip_or_cidr ''ip-cidr, 10.1.2.3/24 ,x,y'' = Inr (Some ''IP-CIDR,10.1.2.0/24,no-resolve'')
   \<and> ip_normalize_ip_or_cidr ''IP-CIDR,nope,1.2.3.4'' = Inr None
   \<and> normalize_ip_or_cidr ''IP-CIDR,nope,1.2.3.4'' = Inr None"
proof -
  have a: "startswith (upper (strip ''ip-cidr, 10.1.2.3/24 ,x,y'')) ''IP-CIDR,''"
    by code_simp
  have b: "startswith (upper (strip ''IP-CIDR,nope,1.2.3.4'')) ''IP-CIDR,''"
    by code_simp
  have c: "spec_candidate_cidr (spec_first_field (strip (drop 8 (strip ''ip-cidr, 10.1.2.3/24 ,x,y''))))
      = Some ''10.1.2.0/24''"
    by code_simp
  have d: "spec_candidate_cidr (spec_first_field (strip (drop 8 (strip ''IP-CIDR,nope,1.2.3.4'')))) = None"
    by code_simp
  show ?thesis
    using C3_prefixed_form[OF a] C3_prefixed_form[OF b] d
    by (simp add: c spec_rule_def)
qed

lemma passthrough_not_prefixed:
  assumes "s = [] \<or> startswith s ''#''"
  shows "\<not> startswith (upper s) ''IP-CIDR,''"
  using assms prefixed_not_passthrough[of s] by auto

lemma normalize_passthrough:
  assumes "spec_blank line \<or> spec_comment line"
  shows "normalize_ip_or_cidr line = Inr (Some line)"
proof -
  have p: "strip line = [] \<or> startswith (strip line) ''#''"
    using assms by (simp add: spec_blank_iff spec_comment_iff)
  then have "\<not> startswith (upper (strip line)) ''IP-CIDR,''" by (rule passthrough_not_prefixed)
  then show ?thesis using p by (simp add: normalize_ip_or_cidr_def Let_def)
qed

lemma ip_normalize_passthrough:
  assumes "spec_blank line \<or> spec_comment line"
  shows "ip_normalize_ip_or_cidr line = Inr (Some (strip line))"
proof -
  have p: "strip line = [] \<or> startswith (strip line) ''#''"
    using assms by (simp add: spec_blank_iff spec_comment_iff)
  then have "\<not> startswith (upper (strip line)) ''IP-CIDR,''" by (rule passthrough_not_prefixed)
  then show ?thesis using p by (simp add: ip_normalize_ip_or_cidr_def Let_def)
qed

lemma domain_passthrough:
  assumes "spec_blank raw \<or> spec_comment raw"
  shows "spec_domain_line raw = raw" "\<not> spec_new_prefix raw"
  using assms by (auto simp: spec_domain_line_def spec_new_prefix_def)

text \<open>
  Claim C6, at a comment line with surrounding whitespace. The normalizer of ip.py returns
  the trimmed text, and its loop counts the line as changed; the normalizer of
  domains_ip.py returns the raw line.
\<close>

theorem C6_ip_py_strips_passthrough:
  "spec_comment ''  # note ''
   \<and> ip_normalize_ip_or_cidr ''  # note '' = Inr (Some ''# note'')
   \<and> ip_loop [''  # note ''] [] 0 0 = Inr ([''# note''], 1, 0)
   \<and> normalize_ip_or_cidr ''  # note '' = Inr (Some ''  # note '')"
  by code_simp

lemma upper_prefix_domain:
  assumes "startswith (upper t) ''DOMAIN-SUFFIX,''"
  shows "t \<noteq> []" "\<not> startswith t ''#''"
proof -
  from assms obtain c r where t: "t = c # r" and u: "upper_chr c = CHR ''D''"
    by (cases t) (auto simp: startswith_def upper_def)
  show "t \<noteq> []" by (simp add: t)
  show "\<not> startswith t ''#''" using u upper_chr_eq_hash[of c] by (auto simp: t startswith_def)
qed

lemma domain_case_sensitive:
  assumes "startswith (upper (strip raw)) ''DOMAIN-SUFFIX,''"
    and "\<not> startswith (strip raw) ''DOMAIN-SUFFIX,''"
  shows "domains_loop [raw] [] 0 = ([''DOMAIN-SUFFIX,'' @ strip raw], 1)"
    and "process_domain_loop [raw] [] 0 = ([''DOMAIN-SUFFIX,'' @ strip raw], 1)"
  using assms(2) upper_prefix_domain[OF assms(1)] by (simp_all add: Let_def)

lemma canonical_prefix_line:
  assumes "startswith (upper (strip line)) ''IP-CIDR,''"
  shows "strip (''IP-CIDR,'' @ drop 8 (strip line)) = ''IP-CIDR,'' @ drop 8 (strip line)"
proof (rule strip_id)
  show "''IP-CIDR,'' @ drop 8 (strip line) \<noteq> []" by simp
  show "\<not> isspace (hd (''IP-CIDR,'' @ drop 8 (strip line)))" by (simp add: isspace_def)
  have ne: "strip line \<noteq> []" using assms by (rule prefixed_not_passthrough)
  show "\<not> isspace (last (''IP-CIDR,'' @ drop 8 (strip line)))"
  proof (cases "drop 8 (strip line) = []")
    case True
    then show ?thesis by (simp add: isspace_def)
  next
    case False
    then have "last (''IP-CIDR,'' @ drop 8 (strip line)) = last (strip line)"
      by (simp add: last_drop)
    then show ?thesis using strip_last_not_space[OF ne] by simp
  qed
qed

lemma ip_case_insensitive:
  assumes "startswith (upper (strip line)) ''IP-CIDR,''"
  shows "ip_normalize_ip_or_cidr line = ip_normalize_ip_or_cidr (''IP-CIDR,'' @ drop 8 (strip line))"
    and "normalize_ip_or_cidr line = normalize_ip_or_cidr (''IP-CIDR,'' @ drop 8 (strip line))"
proof -
  let ?l = "''IP-CIDR,'' @ drop 8 (strip line)"
  have s: "strip ?l = ?l" using assms by (rule canonical_prefix_line)
  have p: "startswith (upper (strip ?l)) ''IP-CIDR,''"
    unfolding s by (simp add: startswith_def upper_def upper_chr_def)
  have d: "drop 8 (strip ?l) = drop 8 (strip line)" unfolding s by simp
  show "ip_normalize_ip_or_cidr line = ip_normalize_ip_or_cidr ?l"
    by (simp only: ip_normalize_prefixed[OF assms] ip_normalize_prefixed[OF p] d)
  show "normalize_ip_or_cidr line = normalize_ip_or_cidr ?l"
    by (simp only: normalize_prefixed[OF assms] normalize_prefixed[OF p] d)
qed

text \<open>
  Claim C10. The domain loops compare the trimmed line with the literal \<open>DOMAIN-SUFFIX,\<close>
  as it is: a line that starts with the prefix in another letter case gets a second prefix
  and counts as changed. The IP normalizers compare the upper-cased line: a line that starts
  with \<open>IP-CIDR,\<close> in any letter case is normalized as the same line with the prefix in
  capitals, through the already-prefixed path.
\<close>

theorem C10_case_sensitivity:
  "(startswith (upper (strip raw)) ''DOMAIN-SUFFIX,'' \<and> \<not> startswith (strip raw) ''DOMAIN-SUFFIX,''
      \<longrightarrow> domains_loop [raw] [] 0 = ([''DOMAIN-SUFFIX,'' @ strip raw], 1)
        \<and> process_domain_loop [raw] [] 0 = ([''DOMAIN-SUFFIX,'' @ strip raw], 1))
   \<and> (startswith (upper (strip line)) ''IP-CIDR,''
      \<longrightarrow> ip_normalize_ip_or_cidr line = ip_normalize_ip_or_cidr (''IP-CIDR,'' @ drop 8 (strip line))
        \<and> normalize_ip_or_cidr line = normalize_ip_or_cidr (''IP-CIDR,'' @ drop 8 (strip line))
        \<and> ip_normalize_ip_or_cidr line =
            Inr (map_option spec_rule
                   (spec_candidate_cidr (spec_first_field (strip (drop 8 (strip line))))))
        \<and> normalize_ip_or_cidr line =
            Inr (map_option spec_rule
                   (spec_candidate_cidr (spec_first_field (strip (drop 8 (strip line)))))))"
  using domain_case_sensitive[of raw] ip_case_insensitive[of line]
    ip_normalize_prefixed[of line] normalize_prefixed[of line]
  by blast

theorem C10_case_sensitivity_witness:
  "domains_loop [''domain-suffix,example.com''] [] 0
      = ([''DOMAIN-SUFFIX,domain-suffix,example.com''], 1)
   \<and> process_domain_loop [''domain-suffix,example.com''] [] 0
      = ([''DOMAIN-SUFFIX,domain-suffix,example.com''], 1)
   \<and> ip_normalize_ip_or_cidr ''Ip-cIdR,1.2.3.4'' = ip_normalize_ip_or_cidr ''IP-CIDR,1.2.3.4''
   \<and> normalize_ip_or_cidr ''Ip-cIdR,1.2.3.4'' = normalize_ip_or_cidr ''IP-CIDR,1.2.3.4''
   \<and> ip_normalize_ip_or_cidr ''Ip-cIdR,1.2.3.4'' = Inr (Some ''IP-CIDR,1.2.3.4/32,no-resolve'')
   \<and> normalize_ip_or_cidr ''Ip-cIdR,1.2.3.4'' = Inr (Some ''IP-CIDR,1.2.3.4/32,no-resolve'')"
proof -
  have a: "startswith (upper (strip ''domain-suffix,example.com'')) ''DOMAIN-SUFFIX,''"
    by code_simp
  have b: "\<not> startswith (strip ''domain-suffix,example.com'') ''DOMAIN-SUFFIX,''"
    by code_simp
  have c: "startswith (upper (strip ''Ip-cIdR,1.2.3.4'')) ''IP-CIDR,''"
    by code_simp
  have d: "strip ''domain-suffix,example.com'' = ''domain-suffix,example.com''"
    by code_simp
  have e: "drop 8 (strip ''Ip-cIdR,1.2.3.4'') = ''1.2.3.4''"
    by code_simp
  have f: "spec_candidate_cidr (spec_first_field (strip ''1.2.3.4'')) = Some ''1.2.3.4/32''"
    by code_simp
  note t = C10_case_sensitivity[of "''domain-suffix,example.com''" "''Ip-cIdR,1.2.3.4''"]
  have 1: "domains_loop [''domain-suffix,example.com''] [] 0
             = ([''DOMAIN-SUFFIX,'' @ strip ''domain-suffix,example.com''], 1)
         \<and> process_domain_loop [''domain-suffix,example.com''] [] 0
             = ([''DOMAIN-SUFFIX,'' @ strip ''domain-suffix,example.com''], 1)"
    using t a b by blast
  have 2: "ip_normalize_ip_or_cidr ''Ip-cIdR,1.2.3.4''
             = ip_normalize_ip_or_cidr (''IP-CIDR,'' @ drop 8 (strip ''Ip-cIdR,1.2.3.4''))
         \<and> normalize_ip_or_cidr ''Ip-cIdR,1.2.3.4''
             = normalize_ip_or_cidr (''IP-CIDR,'' @ drop 8 (strip ''Ip-cIdR,1.2.3.4''))
         \<and> ip_normalize_ip_or_cidr ''Ip-cIdR,1.2.3.4'' =
            Inr (map_option spec_rule
                   (spec_candidate_cidr (spec_first_field (strip (drop 8 (strip ''Ip-cIdR,1.2.3.4''))))))
         \<and> normalize_ip_or_cidr ''Ip-cIdR,1.2.3.4'' =
            Inr (map_option spec_rule
                   (spec_candidate_cidr (spec_first_field (strip (drop 8 (strip ''Ip-cIdR,1.2.3.4''))))))"
    using t c by blast
  have g: "''DOMAIN-SUFFIX,'' @ ''domain-suffix,example.com'' = ''DOMAIN-SUFFIX,domain-suffix,example.com''"
    "''IP-CIDR,'' @ ''1.2.3.4'' = ''IP-CIDR,1.2.3.4''"
    "map_option spec_rule (Some ''1.2.3.4/32'') = Some ''IP-CIDR,1.2.3.4/32,no-resolve''"
    by (simp_all add: spec_rule_def)
  show ?thesis using 1 2 unfolding d e f g by blast
qed

section \<open>Reading, backing up and rewriting a file\<close>

lemma bak_path_neq: "bak_path p \<noteq> p"
  by (simp add: bak_path_def)

lemma domains_process_lst_file_eq:
  assumes "files p = Some t"
  shows "domains_process_lst_file files p =
    Inr ((files(bak_path p \<mapsto> join [CHR 0x0A] (splitlines (universal_newlines t))))
           (p \<mapsto> join [CHR 0x0A] (map spec_domain_line (splitlines (universal_newlines t)))
                  @ [CHR 0x0A]),
         length (filter spec_new_prefix (splitlines (universal_newlines t))))"
  using assms
  by (simp add: domains_process_lst_file_def read_text_def write_text_def MAKE_BACKUP_def
      domains_loop_eq Let_def)

lemma process_domain_lst_file_eq:
  assumes "files p = Some t"
  shows "process_domain_lst_file files p =
    Inr ((files(bak_path p \<mapsto> join [CHR 0x0A] (splitlines (universal_newlines t))))
           (p \<mapsto> join [CHR 0x0A] (map spec_domain_line (splitlines (universal_newlines t)))
                  @ [CHR 0x0A]),
         length (filter spec_new_prefix (splitlines (universal_newlines t))))"
  using assms
  by (simp add: process_domain_lst_file_def read_text_def write_text_def MAKE_BACKUP_def
      process_domain_loop_eq Let_def)

lemma ip_process_lst_file_eq:
  assumes "files p = Some t"
  shows "ip_process_lst_file files p =
    Inr ((files(bak_path p \<mapsto> join [CHR 0x0A] (splitlines (universal_newlines t))))
           (p \<mapsto> join [CHR 0x0A] (out_of ip_normalize_ip_or_cidr (splitlines (universal_newlines t)))
                  @ [CHR 0x0A]),
         changed_of ip_normalize_ip_or_cidr (splitlines (universal_newlines t)),
         kept_of ip_normalize_ip_or_cidr (splitlines (universal_newlines t)))"
  using assms
  by (simp add: ip_process_lst_file_def read_text_def write_text_def MAKE_BACKUP_def
      ip_loop_eq Let_def)

lemma process_ip_lst_file_eq:
  assumes "files p = Some t"
  shows "process_ip_lst_file files p =
    Inr ((files(bak_path p \<mapsto> join [CHR 0x0A] (splitlines (universal_newlines t))))
           (p \<mapsto> join [CHR 0x0A] (out_of normalize_ip_or_cidr (splitlines (universal_newlines t)))
                  @ [CHR 0x0A]),
         changed_of normalize_ip_or_cidr (splitlines (universal_newlines t)),
         kept_of normalize_ip_or_cidr (splitlines (universal_newlines t)))"
  using assms
  by (simp add: process_ip_lst_file_def read_text_def write_text_def MAKE_BACKUP_def
      process_ip_loop_eq Let_def)

lemma splitlines_from_Nil_iff: "splitlines_from cur s = [] \<longleftrightarrow> cur = [] \<and> s = []"
  by (induction cur s rule: splitlines_from.induct) auto

lemma join_Cons: "ys \<noteq> [] \<Longrightarrow> join sep (x # ys) = x @ sep @ join sep ys"
  by (cases ys) simp_all

lemma is_linebreak_LF: "is_linebreak (CHR 0x0A)"
  by (simp add: is_linebreak_def)

lemma chomp_append: "ys \<noteq> [] \<Longrightarrow> chomp (xs @ ys) = xs @ chomp ys"
  by (simp add: chomp_def butlast_append)

lemma join_splitlines_from:
  assumes "only_lf s" "list_all (\<lambda>c. \<not> is_linebreak c) cur"
  shows "join [CHR 0x0A] (splitlines_from cur s) = chomp (cur @ s)"
  using assms
proof (induction cur s rule: splitlines_from.induct)
  case (1 cur)
  have "last cur \<noteq> CHR 0x0A" if "cur \<noteq> []"
  proof
    assume "last cur = CHR 0x0A"
    then have "CHR 0x0A \<in> set cur" using last_in_set[OF that] by simp
    then show False using 1(2) is_linebreak_LF by (auto simp: list_all_iff)
  qed
  then show ?case by (auto simp: chomp_def)
next
  case (2 cur c)
  show ?case
  proof (cases "is_linebreak c")
    case True
    then have "c = CHR 0x0A" using 2(1) by (simp add: only_lf_def)
    then show ?thesis using True by (simp add: chomp_def)
  next
    case False
    then have "c \<noteq> CHR 0x0A" using is_linebreak_LF by auto
    then show ?thesis using False by (simp add: chomp_def)
  qed
next
  case (3 cur c d r)
  have nb: "c \<noteq> CHR 0x0D" using 3(4) by (auto simp: only_lf_def is_linebreak_def)
  show ?case
  proof (cases "is_linebreak c")
    case True
    then have c: "c = CHR 0x0A" using 3(4) by (simp add: only_lf_def)
    have "only_lf (d # r)" using 3(4) by (simp add: only_lf_def)
    then have ih: "join [CHR 0x0A] (splitlines_from [] (d # r)) = chomp (d # r)"
      using 3(2)[OF _ True] nb by simp
    have ne: "splitlines_from [] (d # r) \<noteq> []" by (simp add: splitlines_from_Nil_iff)
    have "chomp (cur @ c # d # r) = cur @ [c] @ chomp (d # r)"
      using chomp_append[of "d # r" "cur @ [c]"] by simp
    then show ?thesis using True nb ih by (simp add: join_Cons[OF ne] c)
  next
    case False
    have "only_lf (d # r)" using 3(4) by (simp add: only_lf_def)
    moreover have "list_all (\<lambda>c. \<not> is_linebreak c) (cur @ [c])" using 3(5) False by simp
    ultimately have "join [CHR 0x0A] (splitlines_from (cur @ [c]) (d # r)) = chomp ((cur @ [c]) @ d # r)"
      using 3(3)[OF _ False] nb by simp
    then show ?thesis using False nb by simp
  qed
qed

lemma join_splitlines: "only_lf t \<Longrightarrow> join [CHR 0x0A] (splitlines t) = chomp t"
  using join_splitlines_from[of t "[]"] by (simp add: splitlines_def)

lemma universal_newlines_id: "CHR 0x0D \<notin> set t \<Longrightarrow> universal_newlines t = t"
  by (induction t rule: universal_newlines.induct) auto

lemma only_lf_no_CR: "only_lf t \<Longrightarrow> CHR 0x0D \<notin> set t"
  by (auto simp: only_lf_def list_all_iff is_linebreak_def)

section \<open>The backup, and the lines that are dropped\<close>

text \<open>
  Claim C8 as stated fails: for the file whose text is \<open>x\<close> and a final LF, the backup
  that domains.py writes is not that text.
\<close>

theorem C8_backup_not_exact_counterexample:
  "file_after (domains_process_lst_file (map_of [(''a.lst'', ''x'' @ [CHR 0x0A])]) ''a.lst'')
     (bak_path ''a.lst'') \<noteq> Some (''x'' @ [CHR 0x0A])"
proof -
  have a: "map_of [(''a.lst'', ''x'' @ [CHR 0x0A])] ''a.lst'' = Some (''x'' @ [CHR 0x0A])"
    by simp
  have b: "join [CHR 0x0A] (splitlines (universal_newlines (''x'' @ [CHR 0x0A]))) = ''x''"
    by code_simp
  show ?thesis
    unfolding domains_process_lst_file_eq[of "map_of [(''a.lst'', ''x'' @ [CHR 0x0A])]" "''a.lst''", OF a] b
    by (simp add: file_after_def bak_path_def)
qed

text \<open>
  Claim C8, amended. For every file that exists, each of the four file functions writes as
  the backup the lines of the text that was read (in text mode, split by \<open>splitlines\<close>)
  joined by single LF characters, with no LF after the last line. For a text whose only
  line boundaries are LF, this is the text without its final LF, if it has one.
\<close>

theorem C8_backup_joined_lines:
  assumes "files p = Some t"
  shows "file_after (domains_process_lst_file files p) (bak_path p)
           = Some (join [CHR 0x0A] (splitlines (universal_newlines t)))
       \<and> file_after (process_domain_lst_file files p) (bak_path p)
           = Some (join [CHR 0x0A] (splitlines (universal_newlines t)))
       \<and> file_after (ip_process_lst_file files p) (bak_path p)
           = Some (join [CHR 0x0A] (splitlines (universal_newlines t)))
       \<and> file_after (process_ip_lst_file files p) (bak_path p)
           = Some (join [CHR 0x0A] (splitlines (universal_newlines t)))
       \<and> (only_lf t \<longrightarrow> join [CHR 0x0A] (splitlines (universal_newlines t)) = chomp t)"
proof -
  have "only_lf t \<Longrightarrow> join [CHR 0x0A] (splitlines (universal_newlines t)) = chomp t"
    by (simp add: universal_newlines_id only_lf_no_CR join_splitlines)
  then show ?thesis
    using assms bak_path_neq[of p]
    by (simp add: file_after_def domains_process_lst_file_eq process_domain_lst_file_eq
      ip_process_lst_file_eq process_ip_lst_file_eq)
qed

theorem C8_backup_joined_lines_witness:
  "file_after (ip_process_lst_file (map_of [(''b.lst'', ''1.2.3.4'' @ [CHR 0x0A] @ ''x'' @ [CHR 0x0A])]) ''b.lst'')
      ''b.lst.bak'' = Some (''1.2.3.4'' @ [CHR 0x0A] @ ''x'')
   \<and> file_after (ip_process_lst_file (map_of [(''b.lst'', ''1.2.3.4'' @ [CHR 0x0A] @ ''x'' @ [CHR 0x0A])]) ''b.lst'')
      ''b.lst'' = Some (''IP-CIDR,1.2.3.4/32,no-resolve'' @ [CHR 0x0A])"
proof -
  let ?t = "''1.2.3.4'' @ [CHR 0x0A] @ ''x'' @ [CHR 0x0A]"
  have a: "map_of [(''b.lst'', ?t)] ''b.lst'' = Some ?t"
    by simp
  have b: "only_lf ?t"
    by code_simp
  have c: "chomp ?t = ''1.2.3.4'' @ [CHR 0x0A] @ ''x''"
    by code_simp
  have d: "bak_path ''b.lst'' = ''b.lst.bak''"
    by code_simp
  have e: "out_of ip_normalize_ip_or_cidr (splitlines (universal_newlines ?t))
      = [''IP-CIDR,1.2.3.4/32,no-resolve'']"
    by code_simp
  have 1: "file_after (ip_process_lst_file (map_of [(''b.lst'', ?t)]) ''b.lst'') (bak_path ''b.lst'')
      = Some (chomp ?t)"
    using C8_backup_joined_lines[of "map_of [(''b.lst'', ?t)]" "''b.lst''" ?t, OF a] b by metis
  have 2: "file_after (ip_process_lst_file (map_of [(''b.lst'', ?t)]) ''b.lst'') ''b.lst''
      = Some (join [CHR 0x0A] (out_of ip_normalize_ip_or_cidr (splitlines (universal_newlines ?t))) @ [CHR 0x0A])"
    unfolding ip_process_lst_file_eq[of "map_of [(''b.lst'', ?t)]" "''b.lst''" ?t, OF a]
    by (simp add: file_after_def)
  show ?thesis using 1 2 unfolding c d e by simp
qed

lemma normalize_unparseable:
  assumes "\<not> spec_blank line" "\<not> spec_comment line" "\<not> spec_parseable (strip line)"
  shows "ip_normalize_ip_or_cidr line = Inr None" "normalize_ip_or_cidr line = Inr None"
proof -
  have np: "strip line \<noteq> []" "\<not> startswith (strip line) ''#''"
    using assms(1,2) by (simp_all add: spec_blank_iff spec_comment_iff)
  have pa: "ip_address (strip line) = None" "ip_network (strip line) = None"
    using assms(3) by (simp_all add: spec_parseable_def)
  have "ip_normalize_ip_or_cidr line = Inr None \<and> normalize_ip_or_cidr line = Inr None"
  proof (cases "startswith (upper (strip line)) ''IP-CIDR,''")
    case True
    then have "spec_candidate_cidr (spec_first_field (strip (drop 8 (strip line)))) = None"
      using assms(3) by (simp add: spec_parseable_def)
    then show ?thesis by (simp add: ip_normalize_prefixed[OF True] normalize_prefixed[OF True])
  next
    case False
    then show ?thesis using np pa
      by (simp add: ip_normalize_ip_or_cidr_def normalize_ip_or_cidr_def Let_def)
  qed
  then show "ip_normalize_ip_or_cidr line = Inr None" "normalize_ip_or_cidr line = Inr None"
    by simp_all
qed

lemma out_of_append: "out_of f (xs @ ys) = out_of f xs @ out_of f ys"
  by (simp add: out_of_def)

lemma out_of_dropped: "f line = Inr None \<Longrightarrow> out_of f (xs @ line # ys) = out_of f xs @ out_of f ys"
  by (simp add: out_of_def)

lemma counts_dropped:
  "f line = Inr None \<Longrightarrow> changed_of f (xs @ line # ys) = changed_of f xs + changed_of f ys"
  "f line = Inr None \<Longrightarrow> kept_of f (xs @ line # ys) = kept_of f xs + kept_of f ys"
  by (simp_all add: changed_of_def kept_of_def)

text \<open>
  Claim C4. A line that is not blank, not a comment and does not parse (as an address, a
  network or an already-prefixed rule) makes both normalizers return \<open>None\<close>. The loops
  return the results of the other lines in order, and the number of output lines is
  \<open>changed + kept\<close>, which with the dropped lines adds up to the number of input lines;
  a dropped line contributes nothing to the output or to either counter.
\<close>

theorem C4_unparseable_dropped:
  "(\<not> spec_blank line \<and> \<not> spec_comment line \<and> \<not> spec_parseable (strip line)
      \<longrightarrow> ip_normalize_ip_or_cidr line = Inr None \<and> normalize_ip_or_cidr line = Inr None)
   \<and> ip_loop ls [] 0 0 = Inr (out_of ip_normalize_ip_or_cidr ls,
        changed_of ip_normalize_ip_or_cidr ls, kept_of ip_normalize_ip_or_cidr ls)
   \<and> process_ip_loop ls [] 0 0 = Inr (out_of normalize_ip_or_cidr ls,
        changed_of normalize_ip_or_cidr ls, kept_of normalize_ip_or_cidr ls)
   \<and> length (out_of ip_normalize_ip_or_cidr ls)
        = changed_of ip_normalize_ip_or_cidr ls + kept_of ip_normalize_ip_or_cidr ls
   \<and> length (out_of normalize_ip_or_cidr ls)
        = changed_of normalize_ip_or_cidr ls + kept_of normalize_ip_or_cidr ls
   \<and> length (out_of ip_normalize_ip_or_cidr ls) + dropped_of ip_normalize_ip_or_cidr ls = length ls
   \<and> length (out_of normalize_ip_or_cidr ls) + dropped_of normalize_ip_or_cidr ls = length ls
   \<and> (ip_normalize_ip_or_cidr line = Inr None \<longrightarrow>
        out_of ip_normalize_ip_or_cidr (xs @ line # ys)
          = out_of ip_normalize_ip_or_cidr xs @ out_of ip_normalize_ip_or_cidr ys
        \<and> changed_of ip_normalize_ip_or_cidr (xs @ line # ys)
          = changed_of ip_normalize_ip_or_cidr xs + changed_of ip_normalize_ip_or_cidr ys
        \<and> kept_of ip_normalize_ip_or_cidr (xs @ line # ys)
          = kept_of ip_normalize_ip_or_cidr xs + kept_of ip_normalize_ip_or_cidr ys)
   \<and> (normalize_ip_or_cidr line = Inr None \<longrightarrow>
        out_of normalize_ip_or_cidr (xs @ line # ys)
          = out_of normalize_ip_or_cidr xs @ out_of normalize_ip_or_cidr ys
        \<and> changed_of normalize_ip_or_cidr (xs @ line # ys)
          = changed_of normalize_ip_or_cidr xs + changed_of normalize_ip_or_cidr ys
        \<and> kept_of normalize_ip_or_cidr (xs @ line # ys)
          = kept_of normalize_ip_or_cidr xs + kept_of normalize_ip_or_cidr ys)"
  using normalize_unparseable[of line]
    counts_total[of ip_normalize_ip_or_cidr ls, OF ip_normalize_total]
    counts_total[of normalize_ip_or_cidr ls, OF normalize_total]
    out_of_dropped[of ip_normalize_ip_or_cidr line xs ys]
    out_of_dropped[of normalize_ip_or_cidr line xs ys]
    counts_dropped[of ip_normalize_ip_or_cidr line xs ys]
    counts_dropped[of normalize_ip_or_cidr line xs ys]
  by (simp add: ip_loop_eq process_ip_loop_eq)

theorem C4_unparseable_dropped_witness:
  "ip_normalize_ip_or_cidr ''not-an-ip'' = Inr None
   \<and> normalize_ip_or_cidr ''not-an-ip'' = Inr None
   \<and> ip_loop [''# list'', ''not-an-ip'', ''10.0.0.1''] [] 0 0
       = Inr ([''# list'', ''IP-CIDR,10.0.0.1/32,no-resolve''], 1, 1)
   \<and> process_ip_loop [''# list'', ''not-an-ip'', ''10.0.0.1''] [] 0 0
       = Inr ([''# list'', ''IP-CIDR,10.0.0.1/32,no-resolve''], 1, 1)"
proof -
  have a: "\<not> spec_blank ''not-an-ip''" "\<not> spec_comment ''not-an-ip''"
    "\<not> spec_parseable (strip ''not-an-ip'')"
    by code_simp+
  let ?ls = "[''# list'', ''not-an-ip'', ''10.0.0.1'']"
  have o: "out_of ip_normalize_ip_or_cidr ?ls = [''# list'', ''IP-CIDR,10.0.0.1/32,no-resolve'']"
    "out_of normalize_ip_or_cidr ?ls = [''# list'', ''IP-CIDR,10.0.0.1/32,no-resolve'']"
    "changed_of ip_normalize_ip_or_cidr ?ls = 1" "changed_of normalize_ip_or_cidr ?ls = 1"
    "kept_of ip_normalize_ip_or_cidr ?ls = 1" "kept_of normalize_ip_or_cidr ?ls = 1"
    by code_simp+
  note t = C4_unparseable_dropped[of "''not-an-ip''" ?ls "[]" "[]"]
  have 1: "ip_normalize_ip_or_cidr ''not-an-ip'' = Inr None \<and> normalize_ip_or_cidr ''not-an-ip'' = Inr None"
    using t a by blast
  have 2: "ip_loop ?ls [] 0 0 = Inr (out_of ip_normalize_ip_or_cidr ?ls,
        changed_of ip_normalize_ip_or_cidr ?ls, kept_of ip_normalize_ip_or_cidr ?ls)
     \<and> process_ip_loop ?ls [] 0 0 = Inr (out_of normalize_ip_or_cidr ?ls,
        changed_of normalize_ip_or_cidr ?ls, kept_of normalize_ip_or_cidr ?ls)"
    using t by blast
  show ?thesis using 1 2 unfolding o by blast
qed

section \<open>What a parsed text starts with\<close>

lemma hd_takeWhile: "takeWhile P s \<noteq> [] \<Longrightarrow> s \<noteq> [] \<and> hd (takeWhile P s) = hd s"
  by (cases s) (auto split: if_splits)

lemma ascii_digit_hex: "ascii_digit c \<Longrightarrow> hex_digit c"
  by (simp add: ascii_digit_def hex_digit_def Let_def)

lemma parse_octet_first:
  assumes "parse_octet s = Some v"
  shows "s \<noteq> []" "ascii_digit (hd s)"
  using assms
  by (cases s; simp add: parse_octet_def isascii_isdigit_def split: if_splits)+

lemma length4: "length xs = 4 \<Longrightarrow> \<exists>a b c d. xs = [a, b, c, d]"
  by (auto simp: eval_nat_numeral length_Suc_conv)

lemma v4_parse_octets:
  assumes "v4_ip_int_from_string s = Some n"
  obtains o1 o2 o3 o4 v1 v2 v3 v4 where
    "s \<noteq> []" "split (CHR ''.'') s = [o1, o2, o3, o4]"
    "parse_octet o1 = Some v1" "parse_octet o2 = Some v2"
    "parse_octet o3 = Some v3" "parse_octet o4 = Some v4"
    "n = from_bytes_big [v1, v2, v3, v4]"
proof -
  from assms have ne: "s \<noteq> []" and len: "length (split (CHR ''.'') s) = 4"
    and th: "map_option from_bytes_big (those (map parse_octet (split (CHR ''.'') s))) = Some n"
    by (auto simp: v4_ip_int_from_string_def Let_def split: if_splits)
  from len obtain o1 o2 o3 o4 where sp: "split (CHR ''.'') s = [o1, o2, o3, o4]"
    using length4 by blast
  from th obtain vs where vs: "those (map parse_octet [o1, o2, o3, o4]) = Some vs"
    and n: "n = from_bytes_big vs" unfolding sp by auto
  from vs obtain v1 v2 v3 v4 where
    "parse_octet o1 = Some v1" "parse_octet o2 = Some v2"
    "parse_octet o3 = Some v3" "parse_octet o4 = Some v4" "vs = [v1, v2, v3, v4]"
    by (auto simp: split: option.splits)
  then show ?thesis using that ne sp n by blast
qed

lemma v4_first_char:
  assumes "v4_ip_int_from_string s = Some n"
  shows "s \<noteq> []" "ascii_digit (hd s)"
proof -
  from assms obtain o1 o2 o3 o4 v1 where ne: "s \<noteq> []"
    and sp: "split (CHR ''.'') s = [o1, o2, o3, o4]" and p: "parse_octet o1 = Some v1"
    by (rule v4_parse_octets)
  have "o1 = takeWhile (\<lambda>c. c \<noteq> CHR ''.'') s" using hd_split[of "CHR ''.''" s] sp by simp
  moreover have "o1 \<noteq> []" "ascii_digit (hd o1)" using parse_octet_first[OF p] by simp_all
  ultimately show "s \<noteq> []" "ascii_digit (hd s)" using hd_takeWhile[of "\<lambda>c. c \<noteq> CHR ''.''" s] by auto
qed

lemma parse_hextet_first:
  assumes "parse_hextet h = Some v"
  shows "h \<noteq> []" "hex_digit (hd h)"
  using assms by (cases h; simp add: parse_hextet_def split: if_splits)+

lemma hextet_loop_first:
  assumes "hextet_loop (h # rest) acc = Some v"
  shows "h \<noteq> []" "hex_digit (hd h)"
  using assms parse_hextet_first[of h] by (auto split: option.splits)

lemma find_skip_index_range:
  "find_skip_index parts idxs sk = Some (Some i) \<Longrightarrow> sk = Some i \<or> i \<in> set idxs"
  by (induction idxs arbitrary: sk) (auto split: if_splits)

lemma take_Cons_hd: "xs \<noteq> [] \<Longrightarrow> 0 < k \<Longrightarrow> take k xs = hd xs # take (k - 1) (tl xs)"
  by (cases xs; cases k) simp_all

lemma v6_with_skip_first:
  assumes "v6_with_skip parts i = Some n" "hd parts \<noteq> []" "parts \<noteq> []" "0 < i"
  shows "hex_digit (hd (hd parts))"
proof -
  from assms(1,2) obtain v where "hextet_loop (take i parts) 0 = Some v"
    by (auto simp: v6_with_skip_def Let_def split: if_splits option.splits)
  then have "hextet_loop (hd parts # take (i - 1) (tl parts)) 0 = Some v"
    using take_Cons_hd[OF assms(3,4)] by simp
  then show ?thesis by (rule hextet_loop_first)
qed

lemma v6_without_skip_first:
  assumes "v6_without_skip parts = Some n"
  shows "hex_digit (hd (hd parts))"
proof -
  from assms have l: "length parts = 8" and h: "hextet_loop parts 0 = Some n"
    by (auto simp: v6_without_skip_def split: if_splits)
  from l have "parts \<noteq> []" by auto
  then have "hextet_loop (hd parts # tl parts) 0 = Some n" using h by simp
  then show ?thesis by (rule hextet_loop_first)
qed

lemma v6_ipv4_suffix_hd:
  assumes "v6_ipv4_suffix parts0 = Some parts" "3 \<le> length parts0"
  shows "hd parts = hd parts0" "parts \<noteq> []"
proof -
  obtain x y z r where p: "parts0 = x # y # z # r"
    using assms(2) by (cases parts0; cases "tl parts0"; cases "tl (tl parts0)") auto
  show "hd parts = hd parts0" "parts \<noteq> []"
    using assms(1) unfolding p by (auto simp: v6_ipv4_suffix_def split: if_splits option.splits)
qed

lemma v6_first_char:
  assumes "v6_ip_int_from_string a = Some n"
  shows "a \<noteq> []" "hd a = CHR '':'' \<or> hex_digit (hd a)"
proof -
  let ?parts0 = "split (CHR '':'') a"
  from assms have ne: "a \<noteq> []" and len0: "3 \<le> length ?parts0"
    by (auto simp: v6_ip_int_from_string_def Let_def split: if_splits)
  show "a \<noteq> []" by fact
  show "hd a = CHR '':'' \<or> hex_digit (hd a)"
  proof (cases "hd ?parts0 = []")
    case True
    then have "takeWhile (\<lambda>c. c \<noteq> CHR '':'') a = []" by (simp add: hd_split)
    then show ?thesis using ne by (cases a) (auto split: if_splits)
  next
    case False
    from assms ne len0 obtain parts where sfx: "v6_ipv4_suffix ?parts0 = Some parts"
      and r: "(\<exists>i. find_skip_index parts [1 ..< length parts - 1] None = Some (Some i)
                \<and> v6_with_skip parts i = Some n)
            \<or> v6_without_skip parts = Some n"
      by (auto simp: v6_ip_int_from_string_def Let_def split: if_splits option.splits)
    have hp: "hd parts = hd ?parts0" and pne: "parts \<noteq> []"
      using v6_ipv4_suffix_hd[OF sfx len0] by simp_all
    have "hex_digit (hd (hd parts))"
    proof -
      from r show ?thesis
      proof
        assume "\<exists>i. find_skip_index parts [1 ..< length parts - 1] None = Some (Some i)
                \<and> v6_with_skip parts i = Some n"
        then obtain i where f: "find_skip_index parts [1 ..< length parts - 1] None = Some (Some i)"
          and w: "v6_with_skip parts i = Some n" by blast
        from find_skip_index_range[OF f] have "0 < i" by auto
        then show ?thesis using v6_with_skip_first[OF w _ pne] False hp by simp
      next
        assume "v6_without_skip parts = Some n"
        then show ?thesis by (rule v6_without_skip_first)
      qed
    qed
    moreover have "hd (hd parts) = hd a"
      using False hd_takeWhile[of "\<lambda>c. c \<noteq> CHR '':''" a] by (simp add: hp hd_split)
    ultimately show ?thesis by simp
  qed
qed

lemma IPv4Address_first:
  assumes "IPv4Address s = Some a"
  shows "s \<noteq> []" "hex_digit (hd s)" "CHR ''/'' \<notin> set s"
  using assms v4_first_char[of s] ascii_digit_hex[of "hd s"]
  by (auto simp: IPv4Address_def split: if_splits)

lemma IPv6Address_first:
  assumes "IPv6Address s = Some a"
  shows "s \<noteq> []" "hd s = CHR '':'' \<or> hex_digit (hd s)" "CHR ''/'' \<notin> set s"
proof -
  from assms have sl: "CHR ''/'' \<notin> set s" by (auto simp: IPv6Address_def split: if_splits)
  from assms obtain addr sc n where sp: "split_scope_id s = Some (addr, sc)"
    and n: "v6_ip_int_from_string addr = Some n"
    by (auto simp: IPv6Address_def split: if_splits option.splits)
  have ane: "addr \<noteq> []" and ah: "hd addr = CHR '':'' \<or> hex_digit (hd addr)"
    using v6_first_char[OF n] by simp_all
  have "addr = s \<or> addr = takeWhile (\<lambda>c. c \<noteq> CHR ''%'') s"
    using sp by (auto simp: split_scope_id_def split: list.splits if_splits)
  then have "s \<noteq> [] \<and> hd s = hd addr"
    using ane hd_takeWhile[of "\<lambda>c. c \<noteq> CHR ''%''" s] by auto
  then show "s \<noteq> []" "hd s = CHR '':'' \<or> hex_digit (hd s)" using ah by simp_all
  show "CHR ''/'' \<notin> set s" by fact
qed

lemma ip_address_first:
  assumes "ip_address s = Some a"
  shows "s \<noteq> []" "hd s = CHR '':'' \<or> hex_digit (hd s)" "CHR ''/'' \<notin> set s"
  using assms IPv4Address_first[of s] IPv6Address_first[of s]
  by (auto simp: ip_address_def split: option.splits)

lemma split_addr_prefix_addr:
  assumes "split_addr_prefix m s = Some (addr, msk)"
  shows "addr = takeWhile (\<lambda>c. c \<noteq> CHR ''/'') s"
  using assms hd_split[of "CHR ''/''" s]
  by (auto simp: split_addr_prefix_def split_optional_netmask_def Let_def
      split: if_splits list.splits)

lemma IPv4Network_first:
  assumes "IPv4Network s = Some net"
  shows "s \<noteq> []" "hex_digit (hd s)"
proof -
  from assms obtain addr msk a where sp: "split_addr_prefix IPV4LENGTH s = Some (addr, msk)"
    and a: "IPv4Address addr = Some a"
    by (auto simp: IPv4Network_def split: option.splits)
  have "addr \<noteq> []" "hex_digit (hd addr)" using IPv4Address_first[OF a] by simp_all
  then show "s \<noteq> []" "hex_digit (hd s)"
    using split_addr_prefix_addr[OF sp] hd_takeWhile[of "\<lambda>c. c \<noteq> CHR ''/''" s] by auto
qed

lemma IPv6Network_first:
  assumes "IPv6Network s = Some net"
  shows "s \<noteq> []" "hd s = CHR '':'' \<or> hex_digit (hd s)"
proof -
  from assms obtain addr msk a where sp: "split_addr_prefix IPV6LENGTH s = Some (addr, msk)"
    and a: "IPv6Address addr = Some a"
    by (auto simp: IPv6Network_def split: option.splits)
  have "addr \<noteq> []" "hd addr = CHR '':'' \<or> hex_digit (hd addr)"
    using IPv6Address_first[OF a] by simp_all
  then show "s \<noteq> []" "hd s = CHR '':'' \<or> hex_digit (hd s)"
    using split_addr_prefix_addr[OF sp] hd_takeWhile[of "\<lambda>c. c \<noteq> CHR ''/''" s] by auto
qed

lemma ip_network_first:
  assumes "ip_network s = Some net"
  shows "s \<noteq> []" "hd s = CHR '':'' \<or> hex_digit (hd s)"
  using assms IPv4Network_first[of s] IPv6Network_first[of s]
  by (auto simp: ip_network_def split: option.splits)

lemma of_char_upper_chr:
  "(of_char (upper_chr c) :: nat) =
     (if 97 \<le> (of_char c :: nat) \<and> (of_char c :: nat) \<le> 122 then of_char c - 32 else of_char c)"
  by (auto simp: upper_chr_def Let_def)

lemma hex_digit_upper_not_I: "hex_digit c \<Longrightarrow> upper_chr c \<noteq> CHR ''I''"
proof
  assume h: "hex_digit c" and "upper_chr c = CHR ''I''"
  then have "(of_char (upper_chr c) :: nat) = 73" by simp
  then show False using h by (auto simp: of_char_upper_chr hex_digit_def Let_def split: if_splits)
qed

lemma first_char_not_special:
  assumes "s \<noteq> []" "hd s = CHR '':'' \<or> hex_digit (hd s)"
  shows "\<not> startswith (upper s) ''IP-CIDR,''" "\<not> startswith s ''#''"
proof -
  obtain c r where s: "s = c # r" using assms(1) by (cases s) auto
  have c: "c = CHR '':'' \<or> hex_digit c" using assms(2) by (simp add: s)
  then have "upper_chr c \<noteq> CHR ''I''"
    using hex_digit_upper_not_I[of c] by (auto simp: upper_chr_def)
  then show "\<not> startswith (upper s) ''IP-CIDR,''" by (simp add: s startswith_def upper_def)
  from c have "c \<noteq> CHR ''#''" by (auto simp: hex_digit_def)
  then show "\<not> startswith s ''#''" by (simp add: s startswith_def)
qed

lemma normalize_bare_address:
  assumes "ip_address (strip line) = Some ip"
  shows "ip_normalize_ip_or_cidr line = Inr (Some (spec_rule
           (str_address ip @ (if isinstance_IPv4Address ip then ''/32'' else ''/128''))))"
    and "normalize_ip_or_cidr line = Inr (Some (spec_rule
           (str_address ip @ (if isinstance_IPv4Address ip then ''/32'' else ''/128''))))"
proof -
  note f = ip_address_first[OF assms]
  note n = first_char_not_special[OF f(1,2)]
  show "ip_normalize_ip_or_cidr line = Inr (Some (spec_rule
           (str_address ip @ (if isinstance_IPv4Address ip then ''/32'' else ''/128''))))"
    using assms f(1,3) n by (simp add: ip_normalize_ip_or_cidr_def Let_def spec_rule_def)
  show "normalize_ip_or_cidr line = Inr (Some (spec_rule
           (str_address ip @ (if isinstance_IPv4Address ip then ''/32'' else ''/128''))))"
    using assms f(1,3) n by (simp add: normalize_ip_or_cidr_def Let_def spec_rule_def)
qed

lemma normalize_network:
  assumes "CHR ''/'' \<in> set (strip line)" "ip_network (strip line) = Some net"
  shows "ip_normalize_ip_or_cidr line = Inr (Some (spec_rule (str_network net)))"
    and "normalize_ip_or_cidr line = Inr (Some (spec_rule (str_network net)))"
proof -
  note f = ip_network_first[OF assms(2)]
  note n = first_char_not_special[OF f]
  show "ip_normalize_ip_or_cidr line = Inr (Some (spec_rule (str_network net)))"
    using assms f(1) n by (simp add: ip_normalize_ip_or_cidr_def Let_def spec_rule_def)
  show "normalize_ip_or_cidr line = Inr (Some (spec_rule (str_network net)))"
    using assms f(1) n by (simp add: normalize_ip_or_cidr_def Let_def spec_rule_def)
qed

section \<open>The text of an IPv4 address\<close>

lemma join_Cons_if: "join sep (x # ys) = (if ys = [] then x else x @ sep @ join sep ys)"
  by (cases ys) simp_all

lemma join_split: "join [sep] (split sep s) = s"
proof (induction s)
  case Nil
  show ?case by simp
next
  case (Cons c cs)
  obtain p ps where sp: "split sep cs = p # ps"
    using split_nonempty[of sep cs] by (cases "split sep cs") auto
  show ?case using Cons by (auto simp: sp join_Cons_if split: if_splits)
qed

lemma split_no_sep: "sep \<notin> set s \<Longrightarrow> split sep s = [s]"
  by (induction s) auto

lemma split_append_sep: "sep \<notin> set xs \<Longrightarrow> split sep (xs @ sep # ys) = xs # split sep ys"
  by (induction xs) auto

lemma char_of_48: "char_of (48 :: nat) = CHR ''0''"
  by code_simp

lemma ascii_digit_value:
  assumes "ascii_digit c"
  shows "0 \<le> digit_value c" "digit_value c < 10" "digit_chr (nat (digit_value c)) = c"
    "digit_value c = 0 \<longleftrightarrow> c = CHR ''0''"
proof -
  let ?n = "of_char c :: nat"
  from assms have r: "48 \<le> ?n" "?n \<le> 57" by (simp_all add: ascii_digit_def Let_def)
  then have v: "digit_value c = int ?n - 48" by (simp add: digit_value_def Let_def)
  show "0 \<le> digit_value c" "digit_value c < 10" using r v by simp_all
  have "nat (digit_value c) = ?n - 48" using v r by simp
  moreover have "?n - 48 < 10" "48 + (?n - 48) = ?n" using r by simp_all
  ultimately have "digit_chr (nat (digit_value c)) = char_of ?n" by (simp add: digit_chr_def)
  then show "digit_chr (nat (digit_value c)) = c" by simp
  show "digit_value c = 0 \<longleftrightarrow> c = CHR ''0''"
  proof
    assume "digit_value c = 0"
    then have "?n = 48" using v r by simp
    then have "char_of ?n = (char_of (48::nat) :: char)" by simp
    then show "c = CHR ''0''" by (simp add: char_of_48)
  next
    assume "c = CHR ''0''"
    then show "digit_value c = 0" by (simp add: digit_value_def)
  qed
qed

lemma digit_chr_0: "digit_chr 0 = CHR ''0''"
  by code_simp

lemma div_mod_256:
  fixes x y :: int
  assumes "0 \<le> y" "y \<le> 255"
  shows "(x * 256 + y) div 256 = x" "(x * 256 + y) mod 256 = y"
  using assms by simp_all

lemma int_of_str_snoc: "int_of_str b (xs @ [c]) = int_of_str b xs * b + digit_value c"
  by (simp add: int_of_str_def)

lemma int_of_str_nonneg: "list_all ascii_digit ds \<Longrightarrow> 0 \<le> int_of_str 10 ds"
  by (induction ds rule: rev_induct) (auto simp: int_of_str_snoc ascii_digit_value int_of_str_def)

lemma str_nat_small: "n < 10 \<Longrightarrow> str_nat 10 n = [digit_chr n]"
  by (simp add: str_nat.simps)

lemma str_nat_large: "10 \<le> n \<Longrightarrow> str_nat 10 n = str_nat 10 (n div 10) @ [digit_chr (n mod 10)]"
  by (subst str_nat.simps) simp

lemma str_int_digits:
  assumes "list_all ascii_digit ds" "ds \<noteq> []" "hd ds \<noteq> CHR ''0'' \<or> ds = ''0''"
  shows "str_int (int_of_str 10 ds) = ds"
  using assms
proof (induction ds rule: rev_induct)
  case Nil
  then show ?case by simp
next
  case (snoc c xs)
  have dc: "ascii_digit c" and dx: "list_all ascii_digit xs" using snoc.prems(1) by simp_all
  note vc = ascii_digit_value[OF dc]
  show ?case
  proof (cases "xs = []")
    case True
    then show ?thesis using vc
      by (simp add: int_of_str_def str_int_def str_nat_small nat_less_iff)
  next
    case False
    then have h: "hd xs \<noteq> CHR ''0''" using snoc.prems(3) by (cases xs) auto
    then have ih: "str_int (int_of_str 10 xs) = xs" using snoc.IH[OF dx False] by simp
    have nn: "0 \<le> int_of_str 10 xs" using dx by (rule int_of_str_nonneg)
    have pos: "int_of_str 10 xs \<noteq> 0"
    proof
      assume "int_of_str 10 xs = 0"
      then have "xs = ''0''" using ih by (simp add: str_int_def str_nat_small digit_chr_0)
      then show False using h by simp
    qed
    let ?v = "nat (int_of_str 10 xs)" and ?d = "nat (digit_value c)"
    have v1: "1 \<le> ?v" using nn pos by simp
    have d9: "?d < 10" using vc by simp
    have e: "nat (int_of_str 10 (xs @ [c])) = ?v * 10 + ?d"
      using nn vc by (simp add: int_of_str_snoc nat_add_distrib nat_mult_distrib)
    have nn2: "0 \<le> int_of_str 10 (xs @ [c])" using nn vc by (simp add: int_of_str_snoc)
    have "str_nat 10 (?v * 10 + ?d) = str_nat 10 ?v @ [digit_chr ?d]"
      using v1 d9 by (subst str_nat_large) simp_all
    moreover have "str_nat 10 ?v = xs" using ih nn by (simp add: str_int_def)
    ultimately show ?thesis using nn2 vc(3) by (simp add: str_int_def e)
  qed
qed

lemma parse_octet_str:
  assumes "parse_octet s = Some v"
  shows "str_int v = s" "0 \<le> v" "v \<le> 255"
proof -
  from assms have d: "list_all ascii_digit s" and ne: "s \<noteq> []"
    and z: "hd s \<noteq> CHR ''0'' \<or> s = ''0''" and v: "v = int_of_str 10 s" and le: "v \<le> 255"
    by (auto simp: parse_octet_def isascii_isdigit_def Let_def split: if_splits)
  show "str_int v = s" unfolding v using d ne z by (rule str_int_digits)
  show "0 \<le> v" unfolding v using d by (rule int_of_str_nonneg)
  show "v \<le> 255" by fact
qed

lemma to_bytes4_from_bytes:
  assumes "0 \<le> a" "a \<le> 255" "0 \<le> b" "b \<le> 255" "0 \<le> c" "c \<le> 255" "0 \<le> d" "d \<le> 255"
  shows "to_bytes4 (from_bytes_big [a, b, c, d]) = [a, b, c, d]"
proof -
  let ?n = "((a * 256 + b) * 256 + c) * 256 + d"
  have n: "from_bytes_big [a, b, c, d] = ?n" by (simp add: from_bytes_big_def)
  have 1: "?n mod 256 = d" using assms by (intro div_mod_256)
  have 2: "?n div 256 = (a * 256 + b) * 256 + c" using assms by (intro div_mod_256)
  have 3: "?n div 65536 = a * 256 + b"
  proof -
    have "?n div 65536 = (?n div 256) div 256" by (simp add: div_mult2_eq[symmetric])
    also have "\<dots> = a * 256 + b" unfolding 2 using assms by (intro div_mod_256)
    finally show ?thesis .
  qed
  have 4: "?n div 16777216 = a"
  proof -
    have "?n div 16777216 = (?n div 65536) div 256" by (simp add: div_mult2_eq[symmetric])
    also have "\<dots> = a" unfolding 3 using assms by (intro div_mod_256)
    finally show ?thesis .
  qed
  have "?n div 256 mod 256 = c" unfolding 2 using assms by (intro div_mod_256)
  moreover have "?n div 65536 mod 256 = b" unfolding 3 using assms by (intro div_mod_256)
  moreover have "?n div 16777216 mod 256 = a"
    unfolding 4 using assms by (simp add: mod_pos_pos_trivial)
  ultimately show ?thesis unfolding n to_bytes4_def using 1 by (simp only:)
qed

lemma v4_string_roundtrip:
  assumes "v4_ip_int_from_string s = Some n"
  shows "v4_string_from_ip_int n = s"
proof -
  from assms obtain o1 o2 o3 o4 v1 v2 v3 v4 where
    sp: "split (CHR ''.'') s = [o1, o2, o3, o4]" and
    p: "parse_octet o1 = Some v1" "parse_octet o2 = Some v2"
       "parse_octet o3 = Some v3" "parse_octet o4 = Some v4" and
    n: "n = from_bytes_big [v1, v2, v3, v4]"
    by (rule v4_parse_octets)
  note a = parse_octet_str[OF p(1)] and b = parse_octet_str[OF p(2)]
    and c = parse_octet_str[OF p(3)] and d = parse_octet_str[OF p(4)]
  have "to_bytes4 n = [v1, v2, v3, v4]"
    unfolding n using a(2,3) b(2,3) c(2,3) d(2,3) by (intro to_bytes4_from_bytes)
  then have "v4_string_from_ip_int n = join ''.'' [o1, o2, o3, o4]"
    using a(1) b(1) c(1) d(1) by (simp add: v4_string_from_ip_int_def)
  also have "\<dots> = s" using join_split[of "CHR ''.''" s] by (simp only: sp)
  finally show ?thesis .
qed

section \<open>Networks: the mask and the non-strict reading\<close>

lemma host_bits_zero:
  fixes x :: int
  shows "(x AND (mask w XOR drop_bit k (mask w))) AND drop_bit k (mask w) = 0"
  by (rule bit_eqI) (auto simp: bit_simps)

lemma v4_ALL_ONES_mask: "v4_ALL_ONES = mask 32"
  by (simp add: v4_ALL_ONES_def mask_eq_exp_minus_1)

lemma v6_ALL_ONES_mask: "v6_ALL_ONES = mask 128"
  by (simp add: v6_ALL_ONES_def mask_eq_exp_minus_1)

lemma IPv4Address_V4: "IPv4Address s = Some a \<Longrightarrow> \<exists>n. a = V4 n"
  by (auto simp: IPv4Address_def split: if_splits)

lemma IPv6Address_V6: "IPv6Address s = Some a \<Longrightarrow> \<exists>n sc. a = V6 n sc"
  by (auto simp: IPv6Address_def split: if_splits option.splits)

lemma IPv4Network_cases:
  assumes "IPv4Network s = Some (Net a p)"
  obtains addr msk n netmask where
    "split_addr_prefix IPV4LENGTH s = Some (addr, msk)"
    "IPv4Address addr = Some (V4 n)" "v4_make_netmask msk = Some (netmask, p)"
    "a = (if n AND netmask \<noteq> n then V4 (n AND netmask) else V4 n)"
proof -
  from assms obtain addr msk na netmask where
    sp: "split_addr_prefix IPV4LENGTH s = Some (addr, msk)" and
    a4: "IPv4Address addr = Some na" and
    mk: "v4_make_netmask msk = Some (netmask, p)" and
    a: "a = (if address_int na AND netmask \<noteq> address_int na
             then V4 (address_int na AND netmask) else na)"
    by (auto simp: IPv4Network_def Let_def split: option.splits if_splits)
  from IPv4Address_V4[OF a4] obtain n where "na = V4 n" by blast
  then show ?thesis using that sp a4 mk a by simp
qed

lemma IPv6Network_cases:
  assumes "IPv6Network s = Some (Net a p)"
  obtains addr msk n sc netmask where
    "split_addr_prefix IPV6LENGTH s = Some (addr, msk)"
    "IPv6Address addr = Some (V6 n sc)" "v6_make_netmask msk = Some (netmask, p)"
    "a = (if n AND netmask \<noteq> n then V6 (n AND netmask) None else V6 n sc)"
proof -
  from assms obtain addr msk na netmask where
    sp: "split_addr_prefix IPV6LENGTH s = Some (addr, msk)" and
    a6: "IPv6Address addr = Some na" and
    mk: "v6_make_netmask msk = Some (netmask, p)" and
    a: "a = (if address_int na AND netmask \<noteq> address_int na
             then V6 (address_int na AND netmask) None else na)"
    by (auto simp: IPv6Network_def Let_def split: option.splits if_splits)
  from IPv6Address_V6[OF a6] obtain n sc where "na = V6 n sc" by blast
  then show ?thesis using that sp a6 mk a by simp
qed

lemma IPv4Network_masked:
  assumes "IPv4Network s = Some (Net a p)"
  shows "isinstance_IPv4Address a" "address_int a AND drop_bit (nat p) v4_ALL_ONES = 0"
proof -
  from assms obtain msk n netmask where
    mk: "v4_make_netmask msk = Some (netmask, p)" and
    a: "a = (if n AND netmask \<noteq> n then V4 (n AND netmask) else V4 n)"
    by (rule IPv4Network_cases)
  from mk have nm: "netmask = v4_ALL_ONES XOR drop_bit (nat p) v4_ALL_ONES"
    by (auto simp: v4_make_netmask_def ip_int_from_prefix_def)
  have ai: "address_int a = n AND netmask" using a by (auto split: if_splits)
  show "isinstance_IPv4Address a" using a by simp
  show "address_int a AND drop_bit (nat p) v4_ALL_ONES = 0"
    unfolding ai nm v4_ALL_ONES_mask by (rule host_bits_zero)
qed

lemma IPv6Network_masked:
  assumes "IPv6Network s = Some (Net a p)"
  shows "\<not> isinstance_IPv4Address a" "address_int a AND drop_bit (nat p) v6_ALL_ONES = 0"
proof -
  from assms obtain msk n sc netmask where
    mk: "v6_make_netmask msk = Some (netmask, p)" and
    a: "a = (if n AND netmask \<noteq> n then V6 (n AND netmask) None else V6 n sc)"
    by (rule IPv6Network_cases)
  from mk have nm: "netmask = v6_ALL_ONES XOR drop_bit (nat p) v6_ALL_ONES"
    by (auto simp: v6_make_netmask_def ip_int_from_prefix_def)
  have ai: "address_int a = n AND netmask" using a by (auto split: if_splits)
  show "\<not> isinstance_IPv4Address a" using a by simp
  show "address_int a AND drop_bit (nat p) v6_ALL_ONES = 0"
    unfolding ai nm v6_ALL_ONES_mask by (rule host_bits_zero)
qed

lemma ip_network_masked:
  assumes "ip_network s = Some (Net a p)"
  shows "address_int a AND
           drop_bit (nat p) (if isinstance_IPv4Address a then v4_ALL_ONES else v6_ALL_ONES) = 0"
  using assms IPv4Network_masked[of s a p] IPv6Network_masked[of s a p]
  by (auto simp: ip_network_def split: option.splits)

lemma split_addr_prefix_slash:
  assumes "CHR ''/'' \<notin> set addr" "CHR ''/'' \<notin> set m"
  shows "split_addr_prefix w (addr @ ''/'' @ m) = Some (addr, MaskStr m)"
  using assms
  by (simp add: split_addr_prefix_def split_optional_netmask_def split_append_sep split_no_sep)

lemma IPv4Network_nonstrict:
  assumes "IPv4Address addr = Some (V4 n)" "v4_make_netmask (MaskStr m) = Some (netmask, p)"
    "CHR ''/'' \<notin> set m"
  shows "ip_network (addr @ ''/'' @ m) = Some (Net (V4 (n AND netmask)) p)"
proof -
  have "CHR ''/'' \<notin> set addr" using assms(1) by (rule IPv4Address_first)
  then have "split_addr_prefix IPV4LENGTH (addr @ ''/'' @ m) = Some (addr, MaskStr m)"
    using assms(3) by (rule split_addr_prefix_slash)
  then have "IPv4Network (addr @ ''/'' @ m) = Some (Net (V4 (n AND netmask)) p)"
    using assms(1,2) by (auto simp: IPv4Network_def Let_def)
  then show ?thesis by (simp add: ip_network_def)
qed

lemma IPv6Network_nonstrict:
  assumes "IPv4Address addr = None" "IPv6Address addr = Some (V6 n sc)"
    "v6_make_netmask (MaskStr m) = Some (netmask, p)" "CHR ''/'' \<notin> set m"
  shows "ip_network (addr @ ''/'' @ m)
     = Some (Net (V6 (n AND netmask) (if n AND netmask \<noteq> n then None else sc)) p)"
proof -
  have sl: "CHR ''/'' \<notin> set addr" using assms(2) by (rule IPv6Address_first)
  have 4: "IPv4Network (addr @ ''/'' @ m) = None"
    using assms(1) split_addr_prefix_slash[OF sl assms(4), of IPV4LENGTH]
    by (simp add: IPv4Network_def)
  have "IPv6Network (addr @ ''/'' @ m)
     = Some (Net (V6 (n AND netmask) (if n AND netmask \<noteq> n then None else sc)) p)"
    using assms(2,3) split_addr_prefix_slash[OF sl assms(4), of IPV6LENGTH]
    by (auto simp: IPv6Network_def Let_def)
  then show ?thesis using 4 by (simp add: ip_network_def)
qed

section \<open>Bare addresses and networks\<close>

text \<open>
  Claim C1. When the trimmed line is a valid bare address, both normalizers return, for an
  IPv4 address, exactly \<open>IP-CIDR,\<close>, the trimmed line itself, \<open>/32\<close> and
  \<open>,no-resolve\<close>; for an IPv6 address, \<open>IP-CIDR,\<close>, the canonical text of the address,
  \<open>/128\<close> and \<open>,no-resolve\<close> (the CIDR field ends in \<open>/128\<close>).
\<close>

theorem C1_bare_address:
  assumes "ip_address (strip line) = Some ip"
  shows "(isinstance_IPv4Address ip \<longrightarrow>
            ip_normalize_ip_or_cidr line = Inr (Some (''IP-CIDR,'' @ strip line @ ''/32,no-resolve''))
          \<and> normalize_ip_or_cidr line = Inr (Some (''IP-CIDR,'' @ strip line @ ''/32,no-resolve'')))
       \<and> (\<not> isinstance_IPv4Address ip \<longrightarrow>
            ip_normalize_ip_or_cidr line
              = Inr (Some (''IP-CIDR,'' @ str_address ip @ ''/128,no-resolve''))
          \<and> normalize_ip_or_cidr line
              = Inr (Some (''IP-CIDR,'' @ str_address ip @ ''/128,no-resolve'')))"
proof -
  have "str_address ip = strip line" if "isinstance_IPv4Address ip"
  proof -
    from that obtain n where ip: "ip = V4 n" by (cases ip) auto
    have "IPv4Address (strip line) = Some (V4 n)"
      using assms unfolding ip by (auto simp: ip_address_def IPv6Address_def split: option.splits if_splits)
    then have "v4_ip_int_from_string (strip line) = Some n"
      by (auto simp: IPv4Address_def split: if_splits)
    then show ?thesis unfolding ip by (simp add: v4_string_roundtrip)
  qed
  then show ?thesis
    using normalize_bare_address[OF assms] by (auto simp: spec_rule_def)
qed

theorem C1_bare_address_witness:
  "ip_normalize_ip_or_cidr '' 192.168.1.7 '' = Inr (Some ''IP-CIDR,192.168.1.7/32,no-resolve'')
   \<and> normalize_ip_or_cidr '' 192.168.1.7 '' = Inr (Some ''IP-CIDR,192.168.1.7/32,no-resolve'')
   \<and> ip_normalize_ip_or_cidr ''0:0:0:0:0:0:0:A'' = Inr (Some ''IP-CIDR,::a/128,no-resolve'')
   \<and> normalize_ip_or_cidr ''0:0:0:0:0:0:0:A'' = Inr (Some ''IP-CIDR,::a/128,no-resolve'')"
proof -
  have a: "ip_address (strip '' 192.168.1.7 '') = Some (V4 3232235783)"
    by code_simp
  have b: "ip_address (strip ''0:0:0:0:0:0:0:A'') = Some (V6 10 None)"
    by code_simp
  have c: "strip '' 192.168.1.7 '' = ''192.168.1.7''"
    by code_simp
  have d: "str_address (V6 10 None) = ''::a''"
    by code_simp
  show ?thesis
    using C1_bare_address[OF a] C1_bare_address[OF b] unfolding c d by simp
qed

text \<open>
  Claim C2. When the trimmed line contains \<open>/\<close> and parses as a network, both
  normalizers return the rule of that network, and the host bits of its address (those
  under the host mask of the prefix length) are zero. The parse is not strict: whenever
  the text before the \<open>/\<close> is a valid address and the text after it a valid mask, the
  network is accepted whatever the host bits, with the address and the netmask combined
  bitwise.
\<close>

theorem C2_network_non_strict:
  "(CHR ''/'' \<in> set (strip line) \<and> ip_network (strip line) = Some (Net a p) \<longrightarrow>
      ip_normalize_ip_or_cidr line
        = Inr (Some (''IP-CIDR,'' @ str_address a @ ''/'' @ str_int p @ '',no-resolve''))
      \<and> normalize_ip_or_cidr line
        = Inr (Some (''IP-CIDR,'' @ str_address a @ ''/'' @ str_int p @ '',no-resolve''))
      \<and> address_int a AND
           drop_bit (nat p) (if isinstance_IPv4Address a then v4_ALL_ONES else v6_ALL_ONES) = 0)
   \<and> (IPv4Address addr = Some (V4 n) \<and> v4_make_netmask (MaskStr m) = Some (netmask, q)
        \<and> CHR ''/'' \<notin> set m \<longrightarrow>
      ip_network (addr @ ''/'' @ m) = Some (Net (V4 (n AND netmask)) q))
   \<and> (IPv4Address addr6 = None \<and> IPv6Address addr6 = Some (V6 n6 sc)
        \<and> v6_make_netmask (MaskStr m6) = Some (netmask6, q6) \<and> CHR ''/'' \<notin> set m6 \<longrightarrow>
      ip_network (addr6 @ ''/'' @ m6)
        = Some (Net (V6 (n6 AND netmask6) (if n6 AND netmask6 \<noteq> n6 then None else sc)) q6))"
  using normalize_network[of line "Net a p"] ip_network_masked[of "strip line" a p]
    IPv4Network_nonstrict[of addr n m netmask q]
    IPv6Network_nonstrict[of addr6 n6 sc m6 netmask6 q6]
  by (simp add: spec_rule_def)

theorem C2_network_non_strict_witness:
  "ip_normalize_ip_or_cidr ''10.1.2.3/24'' = Inr (Some ''IP-CIDR,10.1.2.0/24,no-resolve'')
   \<and> normalize_ip_or_cidr ''10.1.2.3/24'' = Inr (Some ''IP-CIDR,10.1.2.0/24,no-resolve'')
   \<and> ip_normalize_ip_or_cidr ''10.0.0.0/8'' = Inr (Some ''IP-CIDR,10.0.0.0/8,no-resolve'')
   \<and> normalize_ip_or_cidr ''10.0.0.0/8'' = Inr (Some ''IP-CIDR,10.0.0.0/8,no-resolve'')
   \<and> ip_network ''10.1.2.3/24'' = Some (Net (V4 167838208) 24)
   \<and> ip_network ''::a:b/112'' = Some (Net (V6 655360 None) 112)"
proof -
  have a: "CHR ''/'' \<in> set (strip ''10.1.2.3/24'')"
    "ip_network (strip ''10.1.2.3/24'') = Some (Net (V4 167838208) 24)"
    by code_simp+
  have b: "CHR ''/'' \<in> set (strip ''10.0.0.0/8'')"
    "ip_network (strip ''10.0.0.0/8'') = Some (Net (V4 167772160) 8)"
    by code_simp+
  have c: "IPv4Address ''10.1.2.3'' = Some (V4 167838211)"
    "v4_make_netmask (MaskStr ''24'') = Some (4294967040, 24)"
    "CHR ''/'' \<notin> set ''24''"
    by code_simp+
  have d: "IPv4Address ''::a:b'' = None" "IPv6Address ''::a:b'' = Some (V6 655371 None)"
    "v6_make_netmask (MaskStr ''112'') = Some (340282366920938463463374607431768145920, 112)"
    "CHR ''/'' \<notin> set ''112''"
    by code_simp+
  have e: "str_address (V4 167838208) @ ''/'' @ str_int 24 = ''10.1.2.0/24''"
    "str_address (V4 167772160) @ ''/'' @ str_int 8 = ''10.0.0.0/8''"
    "(167838211 :: int) AND 4294967040 = 167838208"
    "(655371 :: int) AND 340282366920938463463374607431768145920 = 655360"
    "''10.1.2.3'' @ ''/'' @ ''24'' = ''10.1.2.3/24''" "''::a:b'' @ ''/'' @ ''112'' = ''::a:b/112''"
    by code_simp+
  note t1 = C2_network_non_strict[of "''10.1.2.3/24''" "V4 167838208" 24
      "''10.1.2.3''" 167838211 "''24''" 4294967040 24
      "''::a:b''" 655371 None "''112''" 340282366920938463463374607431768145920 112]
  note t2 = C2_network_non_strict[of "''10.0.0.0/8''" "V4 167772160" 8]
  have 1: "ip_normalize_ip_or_cidr ''10.1.2.3/24''
        = Inr (Some (''IP-CIDR,'' @ str_address (V4 167838208) @ ''/'' @ str_int 24 @ '',no-resolve''))
      \<and> normalize_ip_or_cidr ''10.1.2.3/24''
        = Inr (Some (''IP-CIDR,'' @ str_address (V4 167838208) @ ''/'' @ str_int 24 @ '',no-resolve''))"
    using t1 a by blast
  have 2: "ip_normalize_ip_or_cidr ''10.0.0.0/8''
        = Inr (Some (''IP-CIDR,'' @ str_address (V4 167772160) @ ''/'' @ str_int 8 @ '',no-resolve''))
      \<and> normalize_ip_or_cidr ''10.0.0.0/8''
        = Inr (Some (''IP-CIDR,'' @ str_address (V4 167772160) @ ''/'' @ str_int 8 @ '',no-resolve''))"
    using t2 b by blast
  have 3: "ip_network (''10.1.2.3'' @ ''/'' @ ''24'') = Some (Net (V4 (167838211 AND 4294967040)) 24)"
    using t1 c by blast
  have 4: "ip_network (''::a:b'' @ ''/'' @ ''112'')
      = Some (Net (V6 (655371 AND 340282366920938463463374607431768145920)
           (if 655371 AND 340282366920938463463374607431768145920 \<noteq> (655371 :: int) then None else None)) 112)"
    using t1 d by blast
  have r1: "ip_normalize_ip_or_cidr ''10.1.2.3/24'' = Inr (Some ''IP-CIDR,10.1.2.0/24,no-resolve'')
      \<and> normalize_ip_or_cidr ''10.1.2.3/24'' = Inr (Some ''IP-CIDR,10.1.2.0/24,no-resolve'')"
    using 1 e(1) by (simp del: str_address.simps)
  have r2: "ip_normalize_ip_or_cidr ''10.0.0.0/8'' = Inr (Some ''IP-CIDR,10.0.0.0/8,no-resolve'')
      \<and> normalize_ip_or_cidr ''10.0.0.0/8'' = Inr (Some ''IP-CIDR,10.0.0.0/8,no-resolve'')"
    using 2 e(2) by (simp del: str_address.simps)
  show ?thesis using r1 r2 3 4 unfolding e by simp
qed

text \<open>
  Claim C5, at the line \<open>::1%,\<close> (an IPv6 address whose zone identifier is a comma).
  The first pass emits a rule whose CIDR field holds the comma; the second pass, run on
  that output, cuts the field at the comma, fails to parse the rest and drops the line.
\<close>

theorem C5_second_pass_drops_line:
  "ip_loop [''::1%,''] [] 0 0 = Inr ([''IP-CIDR,::1%,/128,no-resolve''], 1, 0)
   \<and> ip_loop [''IP-CIDR,::1%,/128,no-resolve''] [] 0 0 = Inr ([], 0, 0)
   \<and> process_ip_loop [''::1%,''] [] 0 0 = Inr ([''IP-CIDR,::1%,/128,no-resolve''], 1, 0)
   \<and> process_ip_loop [''IP-CIDR,::1%,/128,no-resolve''] [] 0 0 = Inr ([], 0, 0)"
  by code_simp

section \<open>A second pass of the domain-list normalizer\<close>

lemma spec_domain_line_idem:
  "spec_domain_line (spec_domain_line raw) = spec_domain_line raw"
  "\<not> spec_new_prefix (spec_domain_line raw)"
proof -
  have "spec_domain_line (spec_domain_line raw) = spec_domain_line raw
      \<and> \<not> spec_new_prefix (spec_domain_line raw)"
  proof (cases "spec_blank raw \<or> spec_comment raw")
    case True
    then show ?thesis by (auto simp: spec_domain_line_def spec_new_prefix_def)
  next
    case False
    then have ne: "strip raw \<noteq> []" and nc: "\<not> startswith (strip raw) ''#''"
      by (simp_all add: spec_blank_iff spec_comment_iff)
    let ?t = "strip raw"
    show ?thesis
    proof (cases "startswith ?t ''DOMAIN-SUFFIX,''")
      case True
      then have r: "spec_domain_line raw = ?t" using False by (simp add: spec_domain_line_def)
      have "\<not> spec_blank ?t" "\<not> spec_comment ?t"
        using ne nc by (simp_all add: spec_blank_iff spec_comment_iff strip_strip)
      then show ?thesis unfolding r using True
        by (simp add: spec_domain_line_def spec_new_prefix_def strip_strip)
    next
      case nopre: False
      define p where "p = ''DOMAIN-SUFFIX,'' @ ?t"
      have r: "spec_domain_line raw = p"
        using False nopre by (simp add: spec_domain_line_def p_def)
      have "last p = last ?t" using ne by (simp add: p_def)
      then have "\<not> isspace (last p)" using strip_last_not_space[OF ne] by simp
      moreover have "\<not> isspace (hd p)" by (simp add: isspace_def p_def)
      moreover have pne: "p \<noteq> []" by (simp add: p_def)
      ultimately have s: "strip p = p" by (intro strip_id)
      have pre: "startswith p ''DOMAIN-SUFFIX,''" by (simp add: startswith_def p_def)
      have nh: "\<not> startswith p ''#''" by (simp add: startswith_def p_def)
      have "\<not> spec_blank p" "\<not> spec_comment p"
        using pne nh by (simp_all add: spec_blank_iff spec_comment_iff s)
      then show ?thesis unfolding r using pre
        by (simp add: spec_domain_line_def spec_new_prefix_def s)
    qed
  qed
  then show "spec_domain_line (spec_domain_line raw) = spec_domain_line raw"
    "\<not> spec_new_prefix (spec_domain_line raw)" by simp_all
qed

lemma domain_normalizer_idempotent:
  "domains_loop (fst (domains_loop ls [] 0)) [] 0 = (fst (domains_loop ls [] 0), 0)"
  "process_domain_loop (fst (process_domain_loop ls [] 0)) [] 0
     = (fst (process_domain_loop ls [] 0), 0)"
  by (simp_all add: domains_loop_eq process_domain_loop_eq spec_domain_line_idem comp_def)

section \<open>Parsing the canonical text of an IPv4 address\<close>

lemma digit_chr_ascii: "d < 10 \<Longrightarrow> ascii_digit (digit_chr d)"
  by (simp add: digit_chr_def ascii_digit_def Let_def)

lemma digit_value_digit_chr: "d < 16 \<Longrightarrow> digit_value (digit_chr d) = int d"
  by (simp add: digit_chr_def digit_value_def Let_def)

lemma digit_chr_eq_0: "d < 16 \<Longrightarrow> digit_chr d = CHR ''0'' \<longleftrightarrow> d = 0"
proof
  assume d: "d < 16" and "digit_chr d = CHR ''0''"
  then have "digit_value (digit_chr d) = 0" by (simp add: digit_value_def)
  then show "d = 0" using d by (simp add: digit_value_digit_chr)
qed (simp add: digit_chr_0)

lemma str_nat_nonempty: "str_nat b n \<noteq> []"
  by (subst str_nat.simps) simp

lemma str_nat_10_digits: "list_all ascii_digit (str_nat 10 n)"
proof (induction n rule: less_induct)
  case (less n)
  show ?case
  proof (cases "n < 10")
    case True
    then show ?thesis by (simp add: str_nat_small digit_chr_ascii)
  next
    case False
    then have "list_all ascii_digit (str_nat 10 (n div 10))" by (intro less) simp
    then show ?thesis using False by (simp add: str_nat_large digit_chr_ascii)
  qed
qed

lemma int_of_str_str_nat_10: "int_of_str 10 (str_nat 10 n) = int n"
proof (induction n rule: less_induct)
  case (less n)
  show ?case
  proof (cases "n < 10")
    case True
    then show ?thesis by (simp add: str_nat_small int_of_str_def digit_value_digit_chr)
  next
    case False
    then have "int_of_str 10 (str_nat 10 (n div 10)) = int (n div 10)" by (intro less) simp
    then show ?thesis using False
      by (simp add: str_nat_large int_of_str_snoc digit_value_digit_chr zdiv_int zmod_int)
  qed
qed

lemma str_nat_10_hd: "0 < n \<Longrightarrow> hd (str_nat 10 n) \<noteq> CHR ''0''"
proof (induction n rule: less_induct)
  case (less n)
  show ?case
  proof (cases "n < 10")
    case True
    then show ?thesis using less.prems by (simp add: str_nat_small digit_chr_eq_0)
  next
    case False
    then have "hd (str_nat 10 (n div 10)) \<noteq> CHR ''0''" by (intro less) simp_all
    then show ?thesis using False by (simp add: str_nat_large str_nat_nonempty)
  qed
qed

lemma str_nat_10_length: "n < 1000 \<Longrightarrow> length (str_nat 10 n) \<le> 3"
proof -
  assume n: "n < 1000"
  show ?thesis
  proof (cases "n < 10")
    case True
    then show ?thesis by (simp add: str_nat_small)
  next
    case a: False
    show ?thesis
    proof (cases "n < 100")
      case True
      then have "n div 10 < 10" by simp
      then show ?thesis using a by (simp add: str_nat_large str_nat_small)
    next
      case False
      then have b: "10 \<le> n div 10" by simp
      have "n div 10 div 10 < 10" using n by simp
      then show ?thesis using a b by (simp add: str_nat_large str_nat_small)
    qed
  qed
qed

lemma parse_octet_str_int:
  assumes "0 \<le> b" "b \<le> 255"
  shows "parse_octet (str_int b) = Some b"
proof -
  let ?n = "nat b"
  have s: "str_int b = str_nat 10 ?n" using assms by (simp add: str_int_def)
  have 1: "str_nat 10 ?n \<noteq> []" by (rule str_nat_nonempty)
  have 2: "isascii_isdigit (str_nat 10 ?n)" by (simp add: isascii_isdigit_def 1 str_nat_10_digits)
  have 3: "length (str_nat 10 ?n) \<le> 3" using assms by (intro str_nat_10_length) simp
  have 4: "\<not> (str_nat 10 ?n \<noteq> ''0'' \<and> hd (str_nat 10 ?n) = CHR ''0'')"
  proof (cases "?n = 0")
    case True
    then show ?thesis by (simp add: str_nat_small digit_chr_0)
  next
    case False
    then show ?thesis using str_nat_10_hd[of ?n] by simp
  qed
  have 5: "int_of_str 10 (str_nat 10 ?n) = b" using assms by (simp add: int_of_str_str_nat_10)
  show ?thesis unfolding s parse_octet_def Let_def using 1 2 3 4 5 assms by (simp del: One_nat_def)
qed

lemma ascii_digit_not_sep:
  assumes "list_all ascii_digit s"
  shows "CHR ''.'' \<notin> set s" "CHR ''/'' \<notin> set s" "CHR '':'' \<notin> set s" "CHR '','' \<notin> set s"
    "CHR ''%'' \<notin> set s"
  using assms by (auto simp: list_all_iff ascii_digit_def Let_def)

lemma str_int_digits_nonneg:
  assumes "0 \<le> b"
  shows "list_all ascii_digit (str_int b)" "str_int b \<noteq> []"
  using assms by (simp_all add: str_int_def str_nat_10_digits str_nat_nonempty)

lemma from_bytes_to_bytes4:
  assumes "0 \<le> n" "n < 4294967296"
  shows "from_bytes_big (to_bytes4 n) = n"
proof -
  have a: "n div 16777216 mod 256 = n div 16777216" using assms by simp
  have b: "n div 16777216 * 256 + n div 65536 mod 256 = n div 65536"
  proof -
    have "n div 16777216 = n div 65536 div 256" by (simp add: div_mult2_eq[symmetric])
    then show ?thesis by (simp add: div_mult_mod_eq)
  qed
  have c: "n div 65536 * 256 + n div 256 mod 256 = n div 256"
  proof -
    have "n div 65536 = n div 256 div 256" by (simp add: div_mult2_eq[symmetric])
    then show ?thesis by (simp add: div_mult_mod_eq)
  qed
  have d: "n div 256 * 256 + n mod 256 = n" by (simp add: div_mult_mod_eq)
  show ?thesis unfolding from_bytes_big_def to_bytes4_def
    by (simp only: foldl.simps mult_zero_left add_0 a b c d)
qed

lemma mod_256_range:
  fixes x :: int
  shows "0 \<le> x mod 256" "x mod 256 \<le> 255"
  using pos_mod_bound[of 256 x] by simp_all

lemma to_bytes4_range:
  assumes "0 \<le> n"
  shows "list_all (\<lambda>b. 0 \<le> b \<and> b \<le> 255) (to_bytes4 n)"
  by (simp add: to_bytes4_def mod_256_range)

lemma v4_parse_roundtrip:
  assumes "0 \<le> n" "n < 4294967296"
  shows "v4_ip_int_from_string (v4_string_from_ip_int n) = Some n"
proof -
  obtain a b c d where tb: "to_bytes4 n = [a, b, c, d]" by (simp add: to_bytes4_def)
  have r: "0 \<le> a" "a \<le> 255" "0 \<le> b" "b \<le> 255" "0 \<le> c" "c \<le> 255" "0 \<le> d" "d \<le> 255"
    using to_bytes4_range[OF assms(1)] unfolding tb by simp_all
  let ?s = "v4_string_from_ip_int n"
  have s: "?s = str_int a @ CHR ''.'' # str_int b @ CHR ''.'' # str_int c @ CHR ''.'' # str_int d"
    by (simp add: v4_string_from_ip_int_def tb)
  have nd: "CHR ''.'' \<notin> set (str_int a)" "CHR ''.'' \<notin> set (str_int b)"
    "CHR ''.'' \<notin> set (str_int c)" "CHR ''.'' \<notin> set (str_int d)"
    using r by (auto intro!: ascii_digit_not_sep str_int_digits_nonneg)
  have sp: "split (CHR ''.'') ?s = [str_int a, str_int b, str_int c, str_int d]"
    unfolding s using nd by (simp add: split_append_sep split_no_sep)
  have ne: "?s \<noteq> []" unfolding s using str_int_digits_nonneg(2)[OF r(1)] by simp
  have "from_bytes_big [a, b, c, d] = n" using from_bytes_to_bytes4[OF assms] by (simp add: tb)
  then show ?thesis
    unfolding v4_ip_int_from_string_def Let_def sp using ne r
    by (simp add: parse_octet_str_int)
qed

section \<open>Ranges of the parsed values\<close>

lemma prefix_string_roundtrip:
  assumes "0 \<le> p" "p \<le> w" "w \<le> 999"
  shows "prefix_from_prefix_string w (str_int p) = Some p"
proof -
  let ?n = "nat p"
  have s: "str_int p = str_nat 10 ?n" using assms by (simp add: str_int_def)
  have 1: "isascii_isdigit (str_nat 10 ?n)"
    by (simp add: isascii_isdigit_def str_nat_nonempty str_nat_10_digits)
  have "length (str_nat 10 ?n) \<le> 3" using assms by (intro str_nat_10_length) simp
  then have 2: "int_of_decimal (str_nat 10 ?n) = Some p"
    using assms by (simp add: int_of_decimal_def int_of_str_str_nat_10)
  show ?thesis unfolding s prefix_from_prefix_string_def using 1 2 assms by simp
qed

lemma v4_range:
  assumes "v4_ip_int_from_string s = Some n"
  shows "0 \<le> n" "n \<le> v4_ALL_ONES"
proof -
  from assms obtain o1 o2 o3 o4 v1 v2 v3 v4 where
    p: "parse_octet o1 = Some v1" "parse_octet o2 = Some v2"
       "parse_octet o3 = Some v3" "parse_octet o4 = Some v4" and
    n: "n = from_bytes_big [v1, v2, v3, v4]"
    by (rule v4_parse_octets)
  note a = parse_octet_str[OF p(1)] and b = parse_octet_str[OF p(2)]
    and c = parse_octet_str[OF p(3)] and d = parse_octet_str[OF p(4)]
  show "0 \<le> n" "n \<le> v4_ALL_ONES"
    unfolding n using a(2,3) b(2,3) c(2,3) d(2,3)
    by (simp_all add: from_bytes_big_def v4_ALL_ONES_def)
qed

lemma count_righthand_zero_bits_range:
  assumes "0 \<le> bits"
  shows "0 \<le> count_righthand_zero_bits number bits" "count_righthand_zero_bits number bits \<le> bits"
  using assms by (simp_all add: count_righthand_zero_bits_def bit_length_def)

lemma prefix_from_ip_int_range:
  assumes "prefix_from_ip_int w x = Some p" "0 \<le> w"
  shows "0 \<le> p" "p \<le> w"
  using assms count_righthand_zero_bits_range[OF assms(2), of x]
  by (auto simp: prefix_from_ip_int_def Let_def split: if_splits)

lemma prefix_from_prefix_string_range:
  assumes "prefix_from_prefix_string w s = Some p"
  shows "0 \<le> p" "p \<le> w"
  using assms by (auto simp: prefix_from_prefix_string_def split: if_splits option.splits)

lemma v4_make_netmask_range:
  assumes "v4_make_netmask msk = Some (netmask, p)"
  shows "0 \<le> p" "p \<le> IPV4LENGTH" "netmask = v4_ALL_ONES XOR drop_bit (nat p) v4_ALL_ONES"
proof -
  from assms have nm: "netmask = v4_ALL_ONES XOR drop_bit (nat p) v4_ALL_ONES"
    by (auto simp: v4_make_netmask_def ip_int_from_prefix_def)
  from assms have "0 \<le> p \<and> p \<le> IPV4LENGTH"
    using prefix_from_prefix_string_range[of IPV4LENGTH _ p]
      prefix_from_ip_int_range[of IPV4LENGTH _ p]
    by (auto simp: v4_make_netmask_def v4_prefix_from_ip_string_def IPV4LENGTH_def
        split: mask_arg.splits option.splits if_splits)
  then show "0 \<le> p" "p \<le> IPV4LENGTH" by simp_all
  show "netmask = v4_ALL_ONES XOR drop_bit (nat p) v4_ALL_ONES" by fact
qed

lemma v6_make_netmask_range:
  assumes "v6_make_netmask msk = Some (netmask, p)"
  shows "0 \<le> p" "p \<le> IPV6LENGTH" "netmask = v6_ALL_ONES XOR drop_bit (nat p) v6_ALL_ONES"
proof -
  from assms have nm: "netmask = v6_ALL_ONES XOR drop_bit (nat p) v6_ALL_ONES"
    by (auto simp: v6_make_netmask_def ip_int_from_prefix_def)
  from assms have "0 \<le> p \<and> p \<le> IPV6LENGTH"
    using prefix_from_prefix_string_range[of IPV6LENGTH _ p]
    by (auto simp: v6_make_netmask_def split: mask_arg.splits option.splits if_splits)
  then show "0 \<le> p" "p \<le> IPV6LENGTH" by simp_all
  show "netmask = v6_ALL_ONES XOR drop_bit (nat p) v6_ALL_ONES" by fact
qed

lemma and_range:
  fixes n :: int
  assumes "0 \<le> n" "n \<le> a"
  shows "0 \<le> n AND m" "n AND m \<le> a"
proof -
  show "0 \<le> n AND m" using assms(1) by simp
  have "n AND m \<le> n" using assms(1) by (rule AND_upper1)
  then show "n AND m \<le> a" using assms(2) by simp
qed

lemma netmask_keeps:
  fixes n :: int
  assumes "0 \<le> n" "n \<le> mask w" "n AND drop_bit k (mask w) = 0"
  shows "n AND (mask w XOR drop_bit k (mask w)) = n"
proof (rule bit_eqI)
  fix i
  have "n < 2 ^ w" using assms(2) by (simp add: mask_eq_exp_minus_1)
  then have tb: "take_bit w n = n" using assms(1) by (simp add: take_bit_int_eq_self)
  have lt: "i < w" if "bit n i" using that tb by (metis bit_take_bit_iff)
  have "\<not> bit (n AND drop_bit k (mask w)) i" using assms(3) by simp
  then have h: "\<not> (bit n i \<and> i + k < w)" by (auto simp: bit_simps)
  show "bit (n AND (mask w XOR drop_bit k (mask w))) i = bit n i"
    using lt h by (auto simp: bit_simps)
qed

section \<open>Canonical IPv4 texts parse to themselves\<close>

lemma v4_string_chars:
  "list_all (\<lambda>c. ascii_digit c \<or> c = CHR ''.'') (v4_string_from_ip_int n)"
  "v4_string_from_ip_int n \<noteq> []"
  "ascii_digit (hd (v4_string_from_ip_int n))"
proof -
  obtain a b c d where tb: "to_bytes4 n = [a, b, c, d]" by (simp add: to_bytes4_def)
  have r: "0 \<le> a" "0 \<le> b" "0 \<le> c" "0 \<le> d"
    using tb by (auto simp: to_bytes4_def mod_256_range)
  have s: "v4_string_from_ip_int n
      = str_int a @ CHR ''.'' # str_int b @ CHR ''.'' # str_int c @ CHR ''.'' # str_int d"
    by (simp add: v4_string_from_ip_int_def tb)
  note da = str_int_digits_nonneg[OF r(1)] and db = str_int_digits_nonneg[OF r(2)]
    and dc = str_int_digits_nonneg[OF r(3)] and dd = str_int_digits_nonneg[OF r(4)]
  have w: "list_all (\<lambda>c. ascii_digit c \<or> c = CHR ''.'') x" if "list_all ascii_digit x" for x
    using that by (simp add: list_all_iff)
  show "list_all (\<lambda>c. ascii_digit c \<or> c = CHR ''.'') (v4_string_from_ip_int n)"
    unfolding s using w[OF da(1)] w[OF db(1)] w[OF dc(1)] w[OF dd(1)] by simp
  show "v4_string_from_ip_int n \<noteq> []" unfolding s by simp
  show "ascii_digit (hd (v4_string_from_ip_int n))"
    unfolding s using da by (cases "str_int a") simp_all
qed

lemma v4_string_no_sep:
  "CHR ''/'' \<notin> set (v4_string_from_ip_int n)" "CHR '','' \<notin> set (v4_string_from_ip_int n)"
  "CHR '':'' \<notin> set (v4_string_from_ip_int n)"
  using v4_string_chars(1)[of n] by (auto simp: list_all_iff ascii_digit_def Let_def)

lemma IPv4Address_canonical:
  assumes "0 \<le> n" "n \<le> v4_ALL_ONES"
  shows "IPv4Address (v4_string_from_ip_int n) = Some (V4 n)"
  using assms v4_string_no_sep(1)[of n]
  by (simp add: IPv4Address_def v4_parse_roundtrip v4_ALL_ONES_def)

lemma v4_canonical_fix:
  assumes "wf_network (Net (V4 n) p)"
  shows "ip_network (str_network (Net (V4 n) p)) = Some (Net (V4 n) p)"
proof -
  from assms have r: "0 \<le> n" "n \<le> v4_ALL_ONES" "0 \<le> p" "p \<le> IPV4LENGTH"
    and h: "n AND drop_bit (nat p) v4_ALL_ONES = 0"
    by (simp_all add: wf_network_def)
  let ?nm = "v4_ALL_ONES XOR drop_bit (nat p) v4_ALL_ONES"
  have a: "IPv4Address (v4_string_from_ip_int n) = Some (V4 n)"
    using r(1,2) by (rule IPv4Address_canonical)
  have "prefix_from_prefix_string IPV4LENGTH (str_int p) = Some p"
    using r(3,4) by (intro prefix_string_roundtrip) (simp_all add: IPV4LENGTH_def)
  then have m: "v4_make_netmask (MaskStr (str_int p)) = Some (?nm, p)"
    by (simp add: v4_make_netmask_def ip_int_from_prefix_def)
  have sl: "CHR ''/'' \<notin> set (str_int p)"
    using str_int_digits_nonneg(1)[OF r(3)] by (rule ascii_digit_not_sep)
  have k: "n AND ?nm = n"
    using r(1,2) h unfolding v4_ALL_ONES_mask by (rule netmask_keeps)
  show ?thesis
    using IPv4Network_nonstrict[OF a m sl] by (simp add: k)
qed

lemma IPv4Network_wf:
  assumes "IPv4Network s = Some net"
  shows "wf_network net"
proof -
  obtain a p where net: "net = Net a p" by (cases net)
  from assms obtain addr msk n netmask where
    a4: "IPv4Address addr = Some (V4 n)" and
    mk: "v4_make_netmask msk = Some (netmask, p)" and
    a: "a = (if n AND netmask \<noteq> n then V4 (n AND netmask) else V4 n)"
    unfolding net by (rule IPv4Network_cases)
  have a': "a = V4 (n AND netmask)" using a by (auto split: if_splits)
  from a4 have "v4_ip_int_from_string addr = Some n"
    by (auto simp: IPv4Address_def split: if_splits)
  note r = v4_range[OF this]
  note nr = and_range[OF r, of netmask]
  note pr = v4_make_netmask_range[OF mk]
  have "(n AND netmask) AND drop_bit (nat p) v4_ALL_ONES = 0"
    unfolding pr(3) v4_ALL_ONES_mask by (rule host_bits_zero)
  then show ?thesis unfolding net a' using nr pr(1,2) by (simp add: wf_network_def)
qed

lemma IPv4Address_wf:
  assumes "IPv4Address s = Some (V4 n)"
  shows "wf_network (Net (V4 n) 32)"
proof -
  from assms have "v4_ip_int_from_string s = Some n"
    by (auto simp: IPv4Address_def split: if_splits)
  note r = v4_range[OF this]
  have "drop_bit 32 v4_ALL_ONES = 0" by (simp add: v4_ALL_ONES_def drop_bit_eq_div)
  then show ?thesis using r by (simp add: wf_network_def IPV4LENGTH_def)
qed

section \<open>Hexadecimal digits\<close>

lemma length_hexfix: "length (hexfix w n) = w"
  by (induction w arbitrary: n) simp_all

lemma hexfix_zero: "hexfix w 0 = replicate w (CHR ''0'')"
  by (induction w) (simp_all add: digit_chr_0 replicate_append_same)

lemma str_nat_16_small: "n < 16 \<Longrightarrow> str_nat 16 n = [digit_chr n]"
  by (simp add: str_nat.simps)

lemma str_nat_16_large: "16 \<le> n \<Longrightarrow> str_nat 16 n = str_nat 16 (n div 16) @ [digit_chr (n mod 16)]"
  by (subst str_nat.simps) simp

lemma length_str_nat_16: "n < 16 ^ w \<Longrightarrow> 0 < w \<Longrightarrow> length (str_nat 16 n) \<le> w"
proof (induction w arbitrary: n)
  case 0
  then show ?case by simp
next
  case (Suc w)
  show ?case
  proof (cases "n < 16")
    case True
    then show ?thesis by (simp add: str_nat_16_small)
  next
    case False
    then have w: "0 < w" using Suc.prems(1) by (cases w) auto
    have "n div 16 < 16 ^ w" using Suc.prems(1) by (simp add: less_mult_imp_div_less mult.commute)
    then have "length (str_nat 16 (n div 16)) \<le> w" using w by (rule Suc.IH)
    then show ?thesis using False by (simp add: str_nat_16_large)
  qed
qed

lemma pad_str_nat_16:
  "n < 16 ^ w \<Longrightarrow> 0 < w \<Longrightarrow>
     replicate (w - length (str_nat 16 n)) (CHR ''0'') @ str_nat 16 n = hexfix w n"
proof (induction w arbitrary: n)
  case 0
  then show ?case by simp
next
  case (Suc w)
  show ?case
  proof (cases "n < 16")
    case True
    then show ?thesis by (simp add: str_nat_16_small hexfix_zero)
  next
    case False
    then have w: "0 < w" using Suc.prems(1) by (cases w) auto
    have lt: "n div 16 < 16 ^ w" using Suc.prems(1) by (simp add: less_mult_imp_div_less mult.commute)
    have ih: "replicate (w - length (str_nat 16 (n div 16))) (CHR ''0'') @ str_nat 16 (n div 16)
        = hexfix w (n div 16)" using lt w by (rule Suc.IH)
    have "length (str_nat 16 (n div 16)) \<le> w" using lt w by (rule length_str_nat_16)
    then show ?thesis using False ih by (simp add: str_nat_16_large Suc_diff_le)
  qed
qed

lemma fmt_032x_hexfix:
  assumes "0 \<le> n" "n \<le> v6_ALL_ONES"
  shows "fmt_032x n = hexfix 32 (nat n)"
proof -
  have "nat n < 16 ^ 32" using assms by (simp add: v6_ALL_ONES_def nat_less_iff)
  then show ?thesis using assms(1) pad_str_nat_16[of "nat n" 32] by (simp add: fmt_032x_def)
qed

lemma hexfix_append: "hexfix (a + b) n = hexfix a (n div 16 ^ b) @ hexfix b n"
proof (induction b arbitrary: n)
  case 0
  show ?case by simp
next
  case (Suc b)
  have "n div 16 div 16 ^ b = n div 16 ^ Suc b" by (simp add: div_mult2_eq)
  then show ?case using Suc[of "n div 16"] by simp
qed

lemma hexfix_slice:
  "take a (drop b (hexfix (b + (a + c)) n)) = hexfix a (n div 16 ^ c)"
proof -
  have "hexfix (b + (a + c)) n = hexfix b (n div 16 ^ (a + c)) @ hexfix a (n div 16 ^ c) @ hexfix c n"
    by (simp add: hexfix_append)
  then show ?thesis by (simp add: length_hexfix)
qed

lemma int_of_str_hexfix: "int_of_str 16 (hexfix w n) = int (n mod 16 ^ w)"
proof (induction w arbitrary: n)
  case 0
  show ?case by (simp add: int_of_str_def)
next
  case (Suc w)
  have "n mod (16 * 16 ^ w) = 16 * (n div 16 mod 16 ^ w) + n mod 16"
    by (simp add: mod_mult2_eq)
  then show ?case using Suc[of "n div 16"]
    by (simp add: int_of_str_snoc digit_value_digit_chr)
qed

section \<open>The hextets of an IPv6 address\<close>

lemma digit_chr_hex: "d < 16 \<Longrightarrow> hex_digit (digit_chr d)"
  by (simp add: digit_chr_def hex_digit_def Let_def)

lemma hex_digit_not_sep:
  assumes "list_all hex_digit s"
  shows "CHR ''.'' \<notin> set s" "CHR ''/'' \<notin> set s" "CHR '':'' \<notin> set s" "CHR '','' \<notin> set s"
    "CHR ''%'' \<notin> set s"
  using assms by (auto simp: list_all_iff hex_digit_def Let_def)

lemma hex_digit_not_space: "hex_digit c \<Longrightarrow> \<not> isspace c"
  by (auto simp: hex_digit_def isspace_def Let_def)

lemma str_nat_16_digits: "list_all hex_digit (str_nat 16 n)"
proof (induction n rule: less_induct)
  case (less n)
  show ?case
  proof (cases "n < 16")
    case True
    then show ?thesis by (simp add: str_nat_16_small digit_chr_hex)
  next
    case False
    then have "list_all hex_digit (str_nat 16 (n div 16))" by (intro less) simp
    then show ?thesis using False by (simp add: str_nat_16_large digit_chr_hex)
  qed
qed

lemma int_of_str_str_nat_16: "int_of_str 16 (str_nat 16 n) = int n"
proof (induction n rule: less_induct)
  case (less n)
  show ?case
  proof (cases "n < 16")
    case True
    then show ?thesis by (simp add: str_nat_16_small int_of_str_def digit_value_digit_chr)
  next
    case False
    then have "int_of_str 16 (str_nat 16 (n div 16)) = int (n div 16)" by (intro less) simp
    then show ?thesis using False
      by (simp add: str_nat_16_large int_of_str_snoc digit_value_digit_chr zdiv_int zmod_int)
  qed
qed

lemma str_nat_16_eq_0: "str_nat 16 n = ''0'' \<longleftrightarrow> n = 0"
proof
  assume a: "str_nat 16 n = ''0''"
  have z: "int_of_str 16 ''0'' = 0" by (simp add: int_of_str_def digit_value_def)
  have "int n = int_of_str 16 (str_nat 16 n)" by (simp only: int_of_str_str_nat_16)
  also have "\<dots> = 0" unfolding a by (rule z)
  finally show "n = 0" by simp
next
  assume "n = 0"
  then show "str_nat 16 n = ''0''" by (simp add: str_nat_16_small digit_chr_0)
qed

lemma fmt_x_nat: "0 \<le> v \<Longrightarrow> fmt_x v = str_nat 16 (nat v)"
  by (simp add: fmt_x_def)

lemma fmt_x_props:
  assumes "0 \<le> v" "v < 65536"
  shows "fmt_x v \<noteq> []" "list_all hex_digit (fmt_x v)" "parse_hextet (fmt_x v) = Some v"
    "fmt_x v = ''0'' \<longleftrightarrow> v = 0"
proof -
  have f: "fmt_x v = str_nat 16 (nat v)" using assms(1) by (rule fmt_x_nat)
  show 1: "fmt_x v \<noteq> []" unfolding f by (rule str_nat_nonempty)
  show 2: "list_all hex_digit (fmt_x v)" unfolding f by (rule str_nat_16_digits)
  have "nat v < 16 ^ 4" using assms by simp
  then have 3: "length (fmt_x v) \<le> 4" unfolding f by (intro length_str_nat_16) simp_all
  have 4: "int_of_str 16 (fmt_x v) = v" unfolding f using assms(1) by (simp add: int_of_str_str_nat_16)
  show "parse_hextet (fmt_x v) = Some v" using 1 2 3 4 by (simp add: parse_hextet_def)
  show "fmt_x v = ''0'' \<longleftrightarrow> v = 0" unfolding f using assms(1) by (simp add: str_nat_16_eq_0)
qed

text \<open>The eight hextets of an address, as numbers.\<close>

lemma hextet_of_slice:
  assumes "a + 4 * k = 28"
  shows "int_of_str 16 (take 4 (drop a (hexfix 32 n))) = int (n div 65536 ^ k mod 65536)"
proof -
  have e: "32 = a + (4 + 4 * k)" using assms by simp
  have p: "(16::nat) ^ (4 * k) = 65536 ^ k" by (simp add: power_mult)
  have "take 4 (drop a (hexfix 32 n)) = hexfix 4 (n div 16 ^ (4 * k))"
    unfolding e by (rule hexfix_slice)
  then show ?thesis by (simp add: int_of_str_hexfix p)
qed

lemma v6_string_hextets:
  assumes "0 \<le> n" "n \<le> v6_ALL_ONES"
  shows "v6_string_from_ip_int n =
     join '':'' (compress_hextets (map (\<lambda>k. fmt_x (int (nat n div 65536 ^ k mod 65536)))
        [7, 6, 5, 4, 3, 2, 1, 0]))"
proof -
  have h: "int_of_str 16 (take 4 (drop 0 (hexfix 32 m))) = int (m div 65536 ^ 7 mod 65536)"
    "int_of_str 16 (take 4 (drop 4 (hexfix 32 m))) = int (m div 65536 ^ 6 mod 65536)"
    "int_of_str 16 (take 4 (drop 8 (hexfix 32 m))) = int (m div 65536 ^ 5 mod 65536)"
    "int_of_str 16 (take 4 (drop 12 (hexfix 32 m))) = int (m div 65536 ^ 4 mod 65536)"
    "int_of_str 16 (take 4 (drop 16 (hexfix 32 m))) = int (m div 65536 ^ 3 mod 65536)"
    "int_of_str 16 (take 4 (drop 20 (hexfix 32 m))) = int (m div 65536 ^ 2 mod 65536)"
    "int_of_str 16 (take 4 (drop 24 (hexfix 32 m))) = int (m div 65536 ^ 1 mod 65536)"
    "int_of_str 16 (take 4 (drop 28 (hexfix 32 m))) = int (m div 65536 ^ 0 mod 65536)" for m
    by (rule hextet_of_slice, simp)+
  show ?thesis
    unfolding v6_string_from_ip_int_def Let_def fmt_032x_hexfix[OF assms] list.map h
    by (rule refl)
qed

section \<open>The longest run of zero hextets\<close>

lemma zero_run_snoc: "zero_run xs s l \<Longrightarrow> zero_run (xs @ [x]) s l"
  by (auto simp: zero_run_def)

lemma zero_run_extend:
  assumes "zero_run xs s l" "s + l = int (length xs)"
  shows "zero_run (xs @ [''0'']) s (l + 1)"
proof -
  from assms have r: "0 \<le> s" "1 \<le> l" "nat s + nat l = length xs"
    and z: "list_all (\<lambda>h. h = ''0'') (take (nat l) (drop (nat s) xs))"
    by (auto simp: zero_run_def)
  have d: "drop (nat s) xs = take (nat l) (drop (nat s) xs)" using r(3) by simp
  have "take (nat (l + 1)) (drop (nat s) (xs @ [''0''])) = drop (nat s) xs @ [''0'']"
    using r by (simp add: nat_add_distrib)
  then have "list_all (\<lambda>h. h = ''0'') (take (nat (l + 1)) (drop (nat s) (xs @ [''0''])))"
    using z d by simp
  then show ?thesis using r assms(2) by (simp add: zero_run_def)
qed

lemma zero_run_start: "zero_run (xs @ [''0'']) (int (length xs)) 1"
  by (simp add: zero_run_def)

lemma compress_loop_inv:
  assumes "index = int (length done)"
    and "(bl = 0 \<and> bs = - 1) \<or> zero_run done bs bl"
    and "(dl = 0 \<and> ds = - 1) \<or> (zero_run done ds dl \<and> ds + dl = index)"
    and "compress_loop rest index (bs, bl, ds, dl) = (bs', bl', ds', dl')"
  shows "(bl' = 0 \<and> bs' = - 1) \<or> zero_run (done @ rest) bs' bl'"
  using assms
proof (induction rest arbitrary: index "done" bs bl ds dl)
  case Nil
  then show ?case by simp
next
  case (Cons hextet rest)
  have idx: "index + 1 = int (length (done @ [hextet]))" using Cons.prems(1) by simp
  show ?case
  proof (cases "hextet = ''0''")
    case False
    have b: "(bl = 0 \<and> bs = - 1) \<or> zero_run (done @ [hextet]) bs bl"
      using Cons.prems(2) zero_run_snoc by blast
    have "compress_loop rest (index + 1) (bs, bl, - 1, 0) = (bs', bl', ds', dl')"
      using Cons.prems(4) False by simp
    from Cons.IH[OF idx b _ this] show ?thesis by simp
  next
    case True
    define ds1 where "ds1 = (if ds = - 1 then index else ds)"
    define dl1 where "dl1 = dl + 1"
    have cur: "zero_run (done @ [hextet]) ds1 dl1 \<and> ds1 + dl1 = index + 1"
    proof (cases "dl = 0 \<and> ds = - 1")
      case True
      then show ?thesis using zero_run_start[of "done"] Cons.prems(1) \<open>hextet = ''0''\<close>
        by (simp add: ds1_def dl1_def)
    next
      case False
      then have z: "zero_run done ds dl" and e: "ds + dl = index" using Cons.prems(3) by auto
      then have "ds \<noteq> - 1" by (auto simp: zero_run_def)
      then show ?thesis
        using zero_run_extend[OF z] e Cons.prems(1) \<open>hextet = ''0''\<close>
        by (simp add: ds1_def dl1_def)
    qed
    show ?thesis
    proof (cases "dl1 > bl")
      case True
      have "compress_loop rest (index + 1) (ds1, dl1, ds1, dl1) = (bs', bl', ds', dl')"
        using Cons.prems(4) \<open>hextet = ''0''\<close> True by (simp add: ds1_def dl1_def Let_def)
      from Cons.IH[OF idx _ _ this] cur show ?thesis by simp
    next
      case False
      have b: "(bl = 0 \<and> bs = - 1) \<or> zero_run (done @ [hextet]) bs bl"
        using Cons.prems(2) zero_run_snoc by blast
      have "compress_loop rest (index + 1) (bs, bl, ds1, dl1) = (bs', bl', ds', dl')"
        using Cons.prems(4) \<open>hextet = ''0''\<close> False by (simp add: ds1_def dl1_def Let_def)
      from Cons.IH[OF idx b _ this] cur show ?thesis by simp
    qed
  qed
qed

lemma compress_hextets_cases:
  obtains (plain) "compress_hextets hs = hs"
  | (run) a b where "a + 2 \<le> b" "b \<le> length hs"
      "list_all (\<lambda>h. h = ''0'') (take (b - a) (drop a hs))"
      "compress_hextets hs =
         (if a = 0 then [[]] else take a hs) @ [[]] @ (if b = length hs then [[]] else drop b hs)"
proof -
  obtain bs bl ds dl where c: "compress_loop hs 0 (- 1, 0, - 1, 0) = (bs, bl, ds, dl)"
    by (cases "compress_loop hs 0 (- 1, 0, - 1, 0)") auto
  have inv: "(bl = 0 \<and> bs = - 1) \<or> zero_run hs bs bl"
    using compress_loop_inv[of 0 "[]" 0 "- 1" 0 "- 1" hs bs bl ds dl] c by simp
  show ?thesis
  proof (cases "bl > 1")
    case False
    then have "compress_hextets hs = hs" by (simp add: compress_hextets_def c)
    then show ?thesis by (rule plain)
  next
    case True
    then have z: "zero_run hs bs bl" using inv by auto
    define a where "a = nat bs"
    define b where "b = nat (bs + bl)"
    from z have r: "0 \<le> bs" "bs + bl \<le> int (length hs)"
      and zs: "list_all (\<lambda>h. h = ''0'') (take (nat bl) (drop (nat bs) hs))"
      by (auto simp: zero_run_def)
    have 1: "a + 2 \<le> b" using True r by (simp add: a_def b_def)
    have 2: "b \<le> length hs" using r by (simp add: b_def)
    have "b - a = nat bl" using r True by (simp add: a_def b_def)
    then have 3: "list_all (\<lambda>h. h = ''0'') (take (b - a) (drop a hs))"
      using zs by (simp add: a_def)
    have e1: "bs + bl = int (length hs) \<longleftrightarrow> b = length hs"
      using r True by (auto simp: b_def)
    have e2: "bs = 0 \<longleftrightarrow> a = 0" using r by (auto simp: a_def)
    have al: "a \<le> length hs" using 1 2 by simp
    have 4: "compress_hextets hs =
         (if a = 0 then [[]] else take a hs) @ [[]] @ (if b = length hs then [[]] else drop b hs)"
      using True al 2 1
      by (simp add: compress_hextets_def c Let_def e1 e2 a_def[symmetric] b_def[symmetric])
    show ?thesis using 1 2 3 4 by (rule run)
  qed
qed

section \<open>Hextets as digits to the base 65536\<close>

lemma split_join:
  assumes "xs \<noteq> []" "list_all (\<lambda>x. sep \<notin> set x) xs"
  shows "split sep (join [sep] xs) = xs"
  using assms
proof (induction xs)
  case Nil
  then show ?case by simp
next
  case (Cons x xs)
  show ?case
  proof (cases xs)
    case Nil
    then show ?thesis using Cons.prems by (simp add: split_no_sep)
  next
    case (Cons y ys)
    then have "split sep (join [sep] xs) = xs" using Cons.IH Cons.prems by simp
    then show ?thesis using Cons Cons.prems by (simp add: split_append_sep)
  qed
qed

lemma push_bit_16_or:
  fixes acc v :: int
  assumes "0 \<le> v" "v < 65536"
  shows "push_bit 16 acc OR v = acc * 65536 + v"
proof -
  have tb: "take_bit 16 v = v" using assms by (simp add: take_bit_int_eq_self)
  have "push_bit 16 acc AND v = 0"
  proof (rule bit_eqI)
    fix i
    have "bit v i \<Longrightarrow> i < 16" using tb by (metis bit_take_bit_iff)
    then show "bit (push_bit 16 acc AND v) i = bit (0::int) i" by (auto simp: bit_simps)
  qed
  then have "push_bit 16 acc + v = push_bit 16 acc OR v" by (rule disjunctive_add_eq_or)
  then show ?thesis by (simp add: push_bit_eq_mult)
qed

lemma horner16_Cons: "horner16 acc (v # vs) = horner16 (acc * 65536 + v) vs"
  by (simp add: horner16_def)

lemma horner16_Nil: "horner16 acc [] = acc"
  by (simp add: horner16_def)

lemma horner16_append: "horner16 acc (xs @ ys) = horner16 (horner16 acc xs) ys"
  by (simp add: horner16_def)

lemma horner16_zeros: "horner16 acc (replicate k 0) = push_bit (16 * k) acc"
proof (induction k arbitrary: acc)
  case 0
  show ?case by (simp add: horner16_Nil)
next
  case (Suc k)
  have "push_bit (16 * k) (acc * 65536) = push_bit (16 * Suc k) acc"
    by (simp add: push_bit_eq_mult power_add mult.assoc)
  then show ?case using Suc[of "acc * 65536"] by (simp add: horner16_Cons)
qed

lemma horner16_nonneg:
  "0 \<le> acc \<Longrightarrow> list_all (\<lambda>v. 0 \<le> v \<and> v < 65536) vs \<Longrightarrow> 0 \<le> horner16 acc vs"
  by (induction vs arbitrary: acc) (simp_all add: horner16_Nil horner16_Cons)

lemma horner16_bound:
  "0 \<le> acc \<Longrightarrow> list_all (\<lambda>v. 0 \<le> v \<and> v < 65536) vs \<Longrightarrow>
     horner16 acc vs < (acc + 1) * 65536 ^ length vs"
proof (induction vs arbitrary: acc)
  case Nil
  then show ?case by (simp add: horner16_Nil)
next
  case (Cons v vs)
  have "horner16 (acc * 65536 + v) vs < (acc * 65536 + v + 1) * 65536 ^ length vs"
    using Cons.prems by (intro Cons.IH) simp_all
  also have "\<dots> \<le> ((acc + 1) * 65536) * 65536 ^ length vs"
    using Cons.prems by (intro mult_right_mono) (simp_all add: algebra_simps)
  finally show ?case by (simp add: horner16_Cons algebra_simps)
qed

lemma hextet_loop_values:
  assumes "list_all (\<lambda>v. 0 \<le> v \<and> v < 65536) vs"
  shows "hextet_loop (map fmt_x vs) acc = Some (horner16 acc vs)"
  using assms
proof (induction vs arbitrary: acc)
  case Nil
  show ?case by (simp add: horner16_Nil)
next
  case (Cons v vs)
  then have r: "0 \<le> v" "v < 65536" and rs: "list_all (\<lambda>v. 0 \<le> v \<and> v < 65536) vs" by simp_all
  show ?case
    using Cons.IH[OF rs] by (simp add: fmt_x_props(3)[OF r] push_bit_16_or[OF r] horner16_Cons)
qed

lemma horner16_digits:
  fixes n :: int
  assumes "0 \<le> n" "n < 65536 ^ 8"
  shows "horner16 0 (map (\<lambda>k. n div 65536 ^ k mod 65536) [7, 6, 5, 4, 3, 2, 1, 0]) = n"
proof -
  have s: "n div 65536 ^ Suc k * 65536 + n div 65536 ^ k mod 65536 = n div 65536 ^ k" for k
  proof -
    have "n div (65536 ^ k * 65536) = n div 65536 ^ k div 65536"
      by (rule zdiv_zmult2_eq) simp
    then have "n div 65536 ^ Suc k = n div 65536 ^ k div 65536"
      by (simp only: power_Suc2)
    then show ?thesis by (simp add: div_mult_mod_eq)
  qed
  have t: "n div 65536 ^ 7 mod 65536 = n div 65536 ^ 7"
  proof -
    define D :: int where "D = 65536 ^ 7"
    have D: "0 < D" by (simp add: D_def)
    have "n div D * D + n mod D = n" by simp
    moreover have "0 \<le> n mod D" using D by simp
    ultimately have "n div D * D \<le> n" by linarith
    moreover have "n < 65536 * D" using assms(2) by (simp add: D_def)
    ultimately have "n div D * D < 65536 * D" by linarith
    then have "n div D < 65536" using D by (simp add: mult_less_cancel_right)
    then have "n div 65536 ^ 7 < 65536" by (simp add: D_def)
    moreover have "0 \<le> n div 65536 ^ 7" using assms(1) by (simp add: pos_imp_zdiv_nonneg_iff)
    ultimately show ?thesis by simp
  qed
  have n7: "(7::nat) = Suc 6" and n6: "(6::nat) = Suc 5" and n5: "(5::nat) = Suc 4"
    and n4: "(4::nat) = Suc 3" and n3: "(3::nat) = Suc 2" and n2: "(2::nat) = Suc 1"
    and n1: "(1::nat) = Suc 0" by simp_all
  have "horner16 0 (map (\<lambda>k. n div 65536 ^ k mod 65536) [7, 6, 5, 4, 3, 2, 1, 0])
      = ((((((n div 65536 ^ 7 * 65536 + n div 65536 ^ 6 mod 65536) * 65536
          + n div 65536 ^ 5 mod 65536) * 65536 + n div 65536 ^ 4 mod 65536) * 65536
          + n div 65536 ^ 3 mod 65536) * 65536 + n div 65536 ^ 2 mod 65536) * 65536
          + n div 65536 ^ 1 mod 65536) * 65536 + n div 65536 ^ 0 mod 65536"
    unfolding horner16_def list.map foldl.simps t by (simp only: mult_zero_left add_0)
  also have "\<dots> = n div 65536 ^ 0"
    using s[of 6] s[of 5] s[of 4] s[of 3] s[of 2] s[of 1] s[of 0]
    unfolding n7[symmetric] n6[symmetric] n5[symmetric] n4[symmetric] n3[symmetric]
      n2[symmetric] n1[symmetric]
    by (simp only:)
  finally show ?thesis by simp
qed

lemma find_skip_index_none:
  "list_all (\<lambda>j. parts ! j \<noteq> []) idxs \<Longrightarrow> find_skip_index parts idxs sk = Some sk"
  by (induction idxs arbitrary: sk) simp_all

lemma find_skip_index_one:
  assumes "list_all (\<lambda>j. parts ! j \<noteq> []) xs" "parts ! i = []"
    "list_all (\<lambda>j. parts ! j \<noteq> []) ys"
  shows "find_skip_index parts (xs @ i # ys) None = Some (Some i)"
  using assms(1)
proof (induction xs)
  case Nil
  show ?case using assms(2,3) by (simp add: find_skip_index_none)
next
  case (Cons x xs)
  then show ?case by simp
qed

lemma upt_split: "l \<le> i \<Longrightarrow> i < m \<Longrightarrow> [l ..< m] = [l ..< i] @ i # [Suc i ..< m]"
proof -
  assume a: "l \<le> i" "i < m"
  have "[l ..< i + (m - i)] = [l ..< i] @ [i ..< i + (m - i)]" using a(1) by (rule upt_add_eq_append)
  then have "[l ..< m] = [l ..< i] @ [i ..< m]" using a(2) by simp
  then show ?thesis using a(2) by (simp add: upt_conv_Cons)
qed

lemma find_skip_index_interior:
  assumes "1 \<le> i" "i + 1 < length parts" "parts ! i = []"
    "\<And>j. 1 \<le> j \<Longrightarrow> j + 1 < length parts \<Longrightarrow> j \<noteq> i \<Longrightarrow> parts ! j \<noteq> []"
  shows "find_skip_index parts [1 ..< length parts - 1] None = Some (Some i)"
proof -
  have s: "[1 ..< length parts - 1] = [1 ..< i] @ i # [Suc i ..< length parts - 1]"
    using assms(1,2) by (intro upt_split) simp_all
  have a: "list_all (\<lambda>j. parts ! j \<noteq> []) [1 ..< i]"
    using assms(2,4) by (auto simp: list_all_iff)
  have b: "list_all (\<lambda>j. parts ! j \<noteq> []) [Suc i ..< length parts - 1]"
    using assms(4) by (auto simp: list_all_iff)
  show ?thesis unfolding s using a assms(3) b by (rule find_skip_index_one)
qed

lemma find_skip_index_plain:
  assumes "list_all (\<lambda>h. h \<noteq> []) parts"
  shows "find_skip_index parts [1 ..< length parts - 1] None = Some None"
proof -
  have "list_all (\<lambda>j. parts ! j \<noteq> []) [1 ..< length parts - 1]"
    using assms by (auto simp: list_all_iff)
  then show ?thesis by (rule find_skip_index_none)
qed

section \<open>Parsing a list of parts\<close>

lemma join_contains_sep: "2 \<le> length xs \<Longrightarrow> sep \<in> set (join [sep] xs)"
  by (cases xs; cases "tl xs") auto

lemma v6_from_parts:
  assumes "3 \<le> length parts" "length parts \<le> 9" "list_all (list_all hex_digit) parts"
  shows "v6_ip_int_from_string (join '':'' parts) =
     (case find_skip_index parts [1 ..< length parts - 1] None of
        None \<Rightarrow> None
      | Some (Some i) \<Rightarrow> v6_with_skip parts i
      | Some None \<Rightarrow> v6_without_skip parts)"
proof -
  have ne: "parts \<noteq> []" using assms(1) by auto
  have nc: "list_all (\<lambda>x. CHR '':'' \<notin> set x) parts"
    using assms(3) hex_digit_not_sep(3) by (auto simp: list_all_iff)
  have sp: "split (CHR '':'') (join '':'' parts) = parts" using ne nc by (rule split_join)
  have "CHR '':'' \<in> set (join '':'' parts)" using assms(1) by (intro join_contains_sep) simp
  then have t: "join '':'' parts \<noteq> []" by auto
  have "list_all hex_digit (last parts)" using assms(3) ne by (auto simp: list_all_iff)
  then have "CHR ''.'' \<notin> set (last parts)" by (rule hex_digit_not_sep)
  then have sfx: "v6_ipv4_suffix parts = Some parts" by (simp add: v6_ipv4_suffix_def)
  show ?thesis
    unfolding v6_ip_int_from_string_def Let_def sp using t assms(1,2) by (simp add: sfx)
qed

lemma skip_index_of_compressed:
  assumes "L = [[]] \<or> (L \<noteq> [] \<and> list_all (\<lambda>h. h \<noteq> []) L)"
    and "R = [[]] \<or> (R \<noteq> [] \<and> list_all (\<lambda>h. h \<noteq> []) R)"
  shows "find_skip_index (L @ [[]] @ R) [1 ..< length (L @ [[]] @ R) - 1] None
     = Some (Some (length L))"
proof (rule find_skip_index_interior)
  have Lne: "L \<noteq> []" and Rne: "R \<noteq> []" using assms by auto
  show "1 \<le> length L" using Lne by (cases L) auto
  show "length L + 1 < length (L @ [[]] @ R)" using Rne by (cases R) auto
  show "(L @ [[]] @ R) ! length L = []" by (simp add: nth_append)
  fix j
  assume j: "1 \<le> j" "j + 1 < length (L @ [[]] @ R)" "j \<noteq> length L"
  show "(L @ [[]] @ R) ! j \<noteq> []"
  proof (cases "j < length L")
    case True
    then have "L \<noteq> [[]]" using j(1) by auto
    then have "list_all (\<lambda>h. h \<noteq> []) L" using assms(1) by auto
    then have "L ! j \<noteq> []" using True by (simp add: list_all_length)
    then show ?thesis using True by (simp add: nth_append)
  next
    case False
    then have g: "length L < j" using j(3) by simp
    define k where "k = j - length L - 1"
    have k: "k + 1 < length R" using j(2) g by (simp add: k_def)
    then have "R \<noteq> [[]]" by auto
    then have "list_all (\<lambda>h. h \<noteq> []) R" using assms(2) by auto
    then have "R ! k \<noteq> []" using k by (simp add: list_all_length)
    moreover have "(L @ [[]] @ R) ! j = R ! k"
      using g by (simp add: nth_append k_def nth_Cons')
    ultimately show ?thesis by simp
  qed
qed

lemma v6_with_skip_eval:
  assumes "L = [[]] \<or> (L \<noteq> [] \<and> list_all (\<lambda>h. h \<noteq> []) L)"
    and "R = [[]] \<or> (R \<noteq> [] \<and> list_all (\<lambda>h. h \<noteq> []) R)"
    and "hi = (if L = [[]] then [] else L)" "lo = (if R = [[]] then [] else R)"
    and "length hi + length lo < 8"
  shows "v6_with_skip (L @ [[]] @ R) (length L) =
     (case hextet_loop hi 0 of
        None \<Rightarrow> None
      | Some x \<Rightarrow> hextet_loop lo (push_bit (16 * (8 - (length hi + length lo))) x))"
proof -
  let ?parts = "L @ [[]] @ R"
  have Lne: "L \<noteq> []" and Rne: "R \<noteq> []" using assms by auto
  have hd: "hd ?parts = hd L" using Lne by simp
  have la: "last ?parts = last R" using Rne by simp
  have hL: "hd L = [] \<longleftrightarrow> L = [[]]"
    using assms(1) by (cases L) auto
  have lR: "last R = [] \<longleftrightarrow> R = [[]]"
  proof
    assume "last R = []"
    show "R = [[]]"
    proof (rule ccontr)
      assume "R \<noteq> [[]]"
      then have "list_all (\<lambda>h. h \<noteq> []) R" using assms(2) by auto
      then have "last R \<noteq> []" using Rne by (auto simp: list_all_iff)
      then show False using \<open>last R = []\<close> by simp
    qed
  qed simp
  have plo: "length ?parts - length L - 1 = length R" by simp
  have t: "take (length hi) ?parts = hi" using assms(3) by auto
  have d: "drop (length ?parts - length lo) ?parts = lo" using assms(4) by auto
  have hi_len: "(if hd L = [] then length L - 1 else length L) = length hi"
    using assms(3) hL by auto
  have lo_len: "(if last R = [] then length R - 1 else length R) = length lo"
    using assms(4) lR by auto
  have c1: "\<not> (hd L = [] \<and> length L - 1 \<noteq> 0)" using hL by auto
  have c2: "\<not> (last R = [] \<and> length R - 1 \<noteq> 0)" using lR by auto
  have c3: "\<not> (8 - (length hi + length lo) < 1)" using assms(5) by simp
  show ?thesis
    unfolding v6_with_skip_def Let_def hd la plo hi_len lo_len
    using c1 c2 c3 by (simp only: if_False t d)
qed

section \<open>Canonical IPv6 texts parse to themselves\<close>

lemma all_zero_replicate:
  fixes xs :: "int list"
  shows "list_all (\<lambda>v. v = 0) xs \<Longrightarrow> xs = replicate (length xs) 0"
  by (induction xs) simp_all

lemma v6_parse_hextets:
  assumes len: "length vs = 8" and r: "list_all (\<lambda>v. 0 \<le> v \<and> v < 65536) vs"
  shows "v6_ip_int_from_string (join '':'' (compress_hextets (map fmt_x vs)))
     = Some (horner16 0 vs)"
proof -
  define hs where "hs = map fmt_x vs"
  have hl: "length hs = 8" by (simp add: hs_def len)
  have hne: "list_all (\<lambda>h. h \<noteq> []) hs"
    using r fmt_x_props(1) by (auto simp: hs_def list_all_iff)
  have hhex: "list_all (list_all hex_digit) hs"
    using r fmt_x_props(2) by (auto simp: hs_def list_all_iff)
  have loop: "hextet_loop (map fmt_x ws) acc = Some (horner16 acc ws)"
    if "set ws \<subseteq> set vs" for ws acc
  proof (rule hextet_loop_values)
    show "list_all (\<lambda>v. 0 \<le> v \<and> v < 65536) ws" using r that by (auto simp: list_all_iff)
  qed
  have "v6_ip_int_from_string (join '':'' (compress_hextets hs)) = Some (horner16 0 vs)"
  proof (cases hs rule: compress_hextets_cases)
    case plain
    have "hs \<noteq> []" using hl by auto
    then have hd: "hd hs \<noteq> []" "last hs \<noteq> []" using hne by (auto simp: list_all_iff)
    have "v6_ip_int_from_string (join '':'' hs) = v6_without_skip hs"
      using v6_from_parts[of hs] hhex find_skip_index_plain[OF hne] by (simp add: hl)
    also have "\<dots> = hextet_loop hs 0" using hd by (simp add: v6_without_skip_def hl)
    also have "\<dots> = Some (horner16 0 vs)" unfolding hs_def by (rule loop) simp
    finally show ?thesis by (simp add: plain)
  next
    case (run a b)
    define L where "L = (if a = 0 then [[]] else take a hs)"
    define R where "R = (if b = length hs then [[]] else drop b hs)"
    have c: "compress_hextets hs = L @ [[]] @ R" by (simp add: run(4) L_def R_def)
    have al: "a < 8" "b \<le> 8" using run(1,2) hl by simp_all
    have tn: "list_all (\<lambda>h. h \<noteq> []) (take a hs)" "list_all (\<lambda>h. h \<noteq> []) (drop b hs)"
      using hne by (auto simp: list_all_iff dest: in_set_takeD in_set_dropD)
    have HL: "L = [[]] \<or> (L \<noteq> [] \<and> list_all (\<lambda>h. h \<noteq> []) L)"
      using tn(1) al hl by (auto simp: L_def)
    have HR: "R = [[]] \<or> (R \<noteq> [] \<and> list_all (\<lambda>h. h \<noteq> []) R)"
      using tn(2) al hl by (auto simp: R_def)
    have hi: "take a hs = (if L = [[]] then [] else L)"
    proof (cases "a = 0")
      case True
      then show ?thesis by (simp add: L_def)
    next
      case False
      then have "take a hs \<noteq> [[]]" using tn(1) al hl by (cases "take a hs") auto
      then show ?thesis using False by (simp add: L_def)
    qed
    have lo: "drop b hs = (if R = [[]] then [] else R)"
    proof (cases "b = length hs")
      case True
      then show ?thesis by (simp add: R_def)
    next
      case False
      then have "drop b hs \<noteq> [[]]" using tn(2) by (cases "drop b hs") auto
      then show ?thesis using False by (simp add: R_def)
    qed
    have lens: "length (take a hs) + length (drop b hs) = 8 - (b - a)"
      using run(1,2) hl by simp
    then have lt: "length (take a hs) + length (drop b hs) < 8" using run(1) by simp
    have Lhex: "list_all (list_all hex_digit) (L @ [[]] @ R)"
      using hhex by (auto simp: L_def R_def list_all_iff dest: in_set_takeD in_set_dropD)
    have plen: "3 \<le> length (L @ [[]] @ R)" "length (L @ [[]] @ R) \<le> 9"
      using run(1,2) hl by (auto simp: L_def R_def)
    have "v6_ip_int_from_string (join '':'' (L @ [[]] @ R)) = v6_with_skip (L @ [[]] @ R) (length L)"
      using v6_from_parts[OF plen Lhex] skip_index_of_compressed[OF HL HR] by simp
    also have "\<dots> = (case hextet_loop (take a hs) 0 of
        None \<Rightarrow> None
      | Some x \<Rightarrow> hextet_loop (drop b hs)
          (push_bit (16 * (8 - (length (take a hs) + length (drop b hs)))) x))"
      using HL HR hi lo lt by (rule v6_with_skip_eval)
    also have "\<dots> = hextet_loop (map fmt_x (drop b vs))
          (push_bit (16 * (b - a)) (horner16 0 (take a vs)))"
    proof -
      have "hextet_loop (take a hs) 0 = Some (horner16 0 (take a vs))"
        unfolding hs_def take_map by (rule loop) (auto dest: in_set_takeD)
      moreover have "8 - (length (take a hs) + length (drop b hs)) = b - a"
        using lens run(1,2) hl by simp
      ultimately show ?thesis by (simp add: hs_def drop_map)
    qed
    also have "\<dots> = Some (horner16 (push_bit (16 * (b - a)) (horner16 0 (take a vs))) (drop b vs))"
      by (rule loop) (auto dest: in_set_dropD)
    also have "horner16 (push_bit (16 * (b - a)) (horner16 0 (take a vs))) (drop b vs)
        = horner16 0 vs"
    proof -
      let ?m = "take (b - a) (drop a vs)"
      have "list_all (\<lambda>v. fmt_x v = ''0'') ?m"
        using run(3) by (simp add: hs_def take_map drop_map list_all_iff)
      moreover have "list_all (\<lambda>v. 0 \<le> v \<and> v < 65536) ?m"
        using r by (auto simp: list_all_iff dest: in_set_takeD in_set_dropD)
      ultimately have "list_all (\<lambda>v. v = 0) ?m"
        using fmt_x_props(4) by (auto simp: list_all_iff)
      then have "?m = replicate (length ?m) 0" by (rule all_zero_replicate)
      moreover have "length ?m = b - a" using run(1,2) len hl by simp
      ultimately have m: "?m = replicate (b - a) 0" by simp
      have "drop a vs = ?m @ drop (b - a) (drop a vs)"
        by (simp only: append_take_drop_id)
      moreover have "drop (b - a) (drop a vs) = drop b vs" using run(1) by simp
      ultimately have "vs = take a vs @ replicate (b - a) 0 @ drop b vs"
        using m by (metis append_take_drop_id)
      then have "horner16 0 vs
          = horner16 0 (take a vs @ replicate (b - a) 0 @ drop b vs)" by simp
      then show ?thesis by (simp add: horner16_append horner16_zeros)
    qed
    finally show ?thesis by (simp add: c)
  qed
  then show ?thesis by (simp add: hs_def)
qed

lemma v6_parse_roundtrip:
  assumes "0 \<le> n" "n \<le> v6_ALL_ONES"
  shows "v6_ip_int_from_string (v6_string_from_ip_int n) = Some n"
proof -
  define vs where "vs = map (\<lambda>k. n div 65536 ^ k mod 65536) [7, 6, 5, 4, 3, 2, 1, 0 :: nat]"
  have e: "int (nat n div 65536 ^ k mod 65536) = n div 65536 ^ k mod 65536" for k
    using assms(1) by (simp add: zdiv_int zmod_int)
  have s: "v6_string_from_ip_int n = join '':'' (compress_hextets (map fmt_x vs))"
    unfolding v6_string_hextets[OF assms] vs_def map_map comp_def e ..
  have len: "length vs = 8" by (simp add: vs_def)
  have r: "list_all (\<lambda>v. 0 \<le> v \<and> v < 65536) vs"
    by (simp add: vs_def pos_mod_bound)
  have "n < 65536 ^ 8" using assms(2) by (simp add: v6_ALL_ONES_def)
  then have "horner16 0 vs = n" unfolding vs_def using assms(1) by (intro horner16_digits)
  then show ?thesis unfolding s using v6_parse_hextets[OF len r] by simp
qed

section \<open>The range of a parsed IPv6 address\<close>

lemma hex_digit_value: "hex_digit c \<Longrightarrow> 0 \<le> digit_value c \<and> digit_value c < 16"
  by (auto simp: hex_digit_def digit_value_def Let_def)

lemma int_of_str_16_range:
  "list_all hex_digit s \<Longrightarrow> 0 \<le> int_of_str 16 s \<and> int_of_str 16 s < 16 ^ length s"
proof (induction s rule: rev_induct)
  case Nil
  show ?case by (simp add: int_of_str_def)
next
  case (snoc c s)
  then have ih: "0 \<le> int_of_str 16 s" "int_of_str 16 s < 16 ^ length s" by simp_all
  have d: "0 \<le> digit_value c" "digit_value c < 16" using snoc.prems hex_digit_value by simp_all
  have "int_of_str 16 s + 1 \<le> 16 ^ length s" using ih(2) by simp
  then have "(int_of_str 16 s + 1) * 16 \<le> 16 ^ length s * 16" by (rule mult_right_mono) simp
  then show ?case using ih(1) d by (simp add: int_of_str_snoc algebra_simps)
qed

lemma parse_hextet_range:
  assumes "parse_hextet h = Some v"
  shows "0 \<le> v" "v < 65536"
proof -
  from assms have hx: "list_all hex_digit h" and l: "length h \<le> 4" and v: "v = int_of_str 16 h"
    by (auto simp: parse_hextet_def split: if_splits)
  note r = int_of_str_16_range[OF hx]
  show "0 \<le> v" using r v by simp
  have "(16::int) ^ length h \<le> 16 ^ 4" using l by (intro power_increasing) simp_all
  then show "v < 65536" using r v by simp
qed

lemma hextet_loop_horner:
  assumes "hextet_loop hs acc = Some x"
  shows "\<exists>vs. length vs = length hs \<and> list_all (\<lambda>v. 0 \<le> v \<and> v < 65536) vs
           \<and> x = horner16 acc vs"
  using assms
proof (induction hs arbitrary: acc)
  case Nil
  then show ?case by (simp add: horner16_Nil)
next
  case (Cons h hs)
  from Cons.prems obtain v where p: "parse_hextet h = Some v"
    and l: "hextet_loop hs (push_bit 16 acc OR v) = Some x"
    by (auto split: option.splits)
  note r = parse_hextet_range[OF p]
  from Cons.IH[OF l] obtain vs where vs: "length vs = length hs"
    "list_all (\<lambda>v. 0 \<le> v \<and> v < 65536) vs" "x = horner16 (push_bit 16 acc OR v) vs" by blast
  have "x = horner16 acc (v # vs)" using vs(3) by (simp add: horner16_Cons push_bit_16_or[OF r])
  then show ?case using vs(1,2) r by (intro exI[of _ "v # vs"]) simp
qed

lemma hextet_loop_range:
  assumes "hextet_loop hs acc = Some x" "0 \<le> acc"
  shows "0 \<le> x" "x < (acc + 1) * 65536 ^ length hs"
proof -
  from hextet_loop_horner[OF assms(1)] obtain vs where vs: "length vs = length hs"
    "list_all (\<lambda>v. 0 \<le> v \<and> v < 65536) vs" "x = horner16 acc vs" by blast
  show "0 \<le> x" unfolding vs(3) using assms(2) vs(2) by (rule horner16_nonneg)
  show "x < (acc + 1) * 65536 ^ length hs"
    unfolding vs(3) vs(1)[symmetric] using assms(2) vs(2) by (rule horner16_bound)
qed

lemma v6_without_skip_range:
  assumes "v6_without_skip parts = Some n"
  shows "0 \<le> n" "n \<le> v6_ALL_ONES"
proof -
  from assms have l: "length parts = 8" and h: "hextet_loop parts 0 = Some n"
    by (auto simp: v6_without_skip_def split: if_splits)
  note r = hextet_loop_range[OF h]
  show "0 \<le> n" using r(1) by simp
  have "n < 65536 ^ 8" using r(2) l by simp
  then show "n \<le> v6_ALL_ONES" by (simp add: v6_ALL_ONES_def)
qed

lemma v6_with_skip_range:
  assumes "v6_with_skip parts i = Some n"
  shows "0 \<le> n" "n \<le> v6_ALL_ONES"
proof -
  define hi where "hi = (if hd parts = [] then i - 1 else i)"
  define lo where "lo = (if last parts = [] then length parts - i - 1 - 1 else length parts - i - 1)"
  have "v6_with_skip parts i =
     (if hd parts = [] \<and> i - 1 \<noteq> 0 then None
      else if last parts = [] \<and> length parts - i - 1 - 1 \<noteq> 0 then None
      else if 8 - (hi + lo) < 1 then None
      else (case hextet_loop (take hi parts) 0 of
              None \<Rightarrow> None
            | Some ip_int \<Rightarrow>
                hextet_loop (drop (length parts - lo) parts)
                  (push_bit (16 * (8 - (hi + lo))) ip_int)))"
    by (simp only: v6_with_skip_def Let_def hi_def lo_def)
  with assms obtain x where
    lt: "hi + lo < 8" and
    h1: "hextet_loop (take hi parts) 0 = Some x" and
    h2: "hextet_loop (drop (length parts - lo) parts) (push_bit (16 * (8 - (hi + lo))) x) = Some n"
    by (auto split: if_splits option.splits)
  define sk where "sk = 8 - (hi + lo)"
  define B :: int where "B = 65536"
  have B: "1 \<le> B" by (simp add: B_def)
  have Bp: "0 < B ^ k" for k using B by simp
  note r1 = hextet_loop_range[OF h1]
  have x1: "x + 1 \<le> B ^ hi"
  proof -
    have "x < B ^ length (take hi parts)" using r1(2) by (simp add: B_def)
    also have "\<dots> \<le> B ^ hi" using B by (intro power_increasing) simp_all
    finally show ?thesis by simp
  qed
  have pb: "push_bit (16 * sk) x = x * B ^ sk"
    by (simp add: push_bit_eq_mult B_def power_mult)
  have a0: "0 \<le> x * B ^ sk" using r1(1) Bp[of sk] by simp
  note r2 = hextet_loop_range[OF h2[unfolded sk_def[symmetric] pb] a0]
  show "0 \<le> n" using r2(1) by simp
  have "x * B ^ sk + 1 \<le> (x + 1) * B ^ sk" using Bp[of sk] by (simp add: algebra_simps)
  also have "\<dots> \<le> B ^ hi * B ^ sk" using x1 Bp[of sk] by (intro mult_right_mono) simp_all
  finally have a1: "x * B ^ sk + 1 \<le> B ^ (hi + sk)" by (simp add: power_add)
  have "n < (x * B ^ sk + 1) * B ^ length (drop (length parts - lo) parts)"
    using r2(2) by (simp add: B_def)
  also have "\<dots> \<le> (x * B ^ sk + 1) * B ^ lo"
    using a0 B by (intro mult_left_mono power_increasing) simp_all
  also have "\<dots> \<le> B ^ (hi + sk) * B ^ lo" using a1 Bp[of lo] by (intro mult_right_mono) simp_all
  also have "\<dots> = B ^ 8" using lt by (simp add: power_add[symmetric] sk_def)
  finally have "n < 65536 ^ 8" by (simp add: B_def)
  then show "n \<le> v6_ALL_ONES" by (simp add: v6_ALL_ONES_def)
qed

lemma v6_range:
  assumes "v6_ip_int_from_string a = Some n"
  shows "0 \<le> n" "n \<le> v6_ALL_ONES"
proof -
  from assms obtain parts where
    "(\<exists>i. v6_with_skip parts i = Some n) \<or> v6_without_skip parts = Some n"
    by (auto simp: v6_ip_int_from_string_def Let_def split: if_splits option.splits)
  then show "0 \<le> n" "n \<le> v6_ALL_ONES"
    using v6_with_skip_range v6_without_skip_range by blast+
qed

section \<open>The canonical text of an IPv6 network\<close>

lemma join_chars:
  "list_all (list_all P) xs \<Longrightarrow> list_all (\<lambda>c. P c \<or> c = sep) (join [sep] xs)"
proof (induction xs)
  case Nil
  show ?case by simp
next
  case (Cons x xs)
  then have "list_all (\<lambda>c. P c \<or> c = sep) x" "list_all (\<lambda>c. P c \<or> c = sep) (join [sep] xs)"
    by (auto simp: list_all_iff)
  then show ?case by (cases xs) simp_all
qed

lemma compress_hextets_props:
  assumes "length hs = 8" "list_all (list_all hex_digit) hs"
  shows "list_all (list_all hex_digit) (compress_hextets hs)" "2 \<le> length (compress_hextets hs)"
proof -
  have "list_all (list_all hex_digit) (compress_hextets hs) \<and> 2 \<le> length (compress_hextets hs)"
  proof (cases hs rule: compress_hextets_cases)
    case plain
    then show ?thesis using assms by simp
  next
    case (run a b)
    have "list_all (list_all hex_digit) (take a hs)" "list_all (list_all hex_digit) (drop b hs)"
      using assms(2) by (auto simp: list_all_iff dest: in_set_takeD in_set_dropD)
    then show ?thesis using run(1,2) unfolding run(4) by auto
  qed
  then show "list_all (list_all hex_digit) (compress_hextets hs)"
    "2 \<le> length (compress_hextets hs)" by simp_all
qed

lemma v6_string_props:
  assumes "0 \<le> n" "n \<le> v6_ALL_ONES"
  shows "list_all (\<lambda>c. hex_digit c \<or> c = CHR '':'') (v6_string_from_ip_int n)"
    and "CHR '':'' \<in> set (v6_string_from_ip_int n)"
proof -
  let ?hs = "map (\<lambda>k. fmt_x (int (nat n div 65536 ^ k mod 65536))) [7, 6, 5, 4, 3, 2, 1, 0 :: nat]"
  have l: "length ?hs = 8" by simp
  have "list_all hex_digit (fmt_x (int m))" for m
    by (simp add: fmt_x_nat str_nat_16_digits)
  then have h: "list_all (list_all hex_digit) ?hs" by simp
  note c = compress_hextets_props[OF l h]
  show "list_all (\<lambda>c. hex_digit c \<or> c = CHR '':'') (v6_string_from_ip_int n)"
    unfolding v6_string_hextets[OF assms] using c(1) by (rule join_chars)
  show "CHR '':'' \<in> set (v6_string_from_ip_int n)"
    unfolding v6_string_hextets[OF assms] using c(2) by (rule join_contains_sep)
qed

lemma v6_string_no_sep:
  assumes "0 \<le> n" "n \<le> v6_ALL_ONES"
  shows "CHR ''/'' \<notin> set (v6_string_from_ip_int n)" "CHR ''%'' \<notin> set (v6_string_from_ip_int n)"
    "CHR ''.'' \<notin> set (v6_string_from_ip_int n)" "CHR '','' \<notin> set (v6_string_from_ip_int n)"
    "v6_string_from_ip_int n \<noteq> []" "\<not> isspace (hd (v6_string_from_ip_int n))"
proof -
  note p = v6_string_props[OF assms]
  have a: "hex_digit c \<or> c = CHR '':''" if "c \<in> set (v6_string_from_ip_int n)" for c
    using p(1) that by (auto simp: list_all_iff)
  have b: "c \<noteq> CHR ''/'' \<and> c \<noteq> CHR ''%'' \<and> c \<noteq> CHR ''.'' \<and> c \<noteq> CHR '','' \<and> \<not> isspace c"
    if "hex_digit c \<or> c = CHR '':''" for c
    using that by (auto simp: hex_digit_def isspace_def Let_def)
  show "CHR ''/'' \<notin> set (v6_string_from_ip_int n)" "CHR ''%'' \<notin> set (v6_string_from_ip_int n)"
    "CHR ''.'' \<notin> set (v6_string_from_ip_int n)" "CHR '','' \<notin> set (v6_string_from_ip_int n)"
    using a b by blast+
  show ne: "v6_string_from_ip_int n \<noteq> []" using p(2) by auto
  then have "hd (v6_string_from_ip_int n) \<in> set (v6_string_from_ip_int n)" by simp
  then show "\<not> isspace (hd (v6_string_from_ip_int n))" using a b by blast
qed

lemma v4_first_octet_digits:
  assumes "v4_ip_int_from_string s = Some n"
  shows "list_all ascii_digit (takeWhile (\<lambda>c. c \<noteq> CHR ''.'') s)"
proof -
  from assms obtain o1 o2 o3 o4 v1 where
    sp: "split (CHR ''.'') s = [o1, o2, o3, o4]" and p: "parse_octet o1 = Some v1"
    by (rule v4_parse_octets)
  have "o1 = takeWhile (\<lambda>c. c \<noteq> CHR ''.'') s" using hd_split[of "CHR ''.''" s] sp by simp
  moreover have "list_all ascii_digit o1"
    using p by (auto simp: parse_octet_def isascii_isdigit_def split: if_splits)
  ultimately show ?thesis by simp
qed

lemma IPv4Address_rejects_v6_text:
  assumes "0 \<le> n" "n \<le> v6_ALL_ONES"
  shows "IPv4Address (v6_string_from_ip_int n @ rest) = None"
proof (rule ccontr)
  assume "IPv4Address (v6_string_from_ip_int n @ rest) \<noteq> None"
  then obtain m where "v4_ip_int_from_string (v6_string_from_ip_int n @ rest) = Some m"
    by (auto simp: IPv4Address_def split: if_splits)
  then have d: "list_all ascii_digit
      (takeWhile (\<lambda>c. c \<noteq> CHR ''.'') (v6_string_from_ip_int n @ rest))"
    by (rule v4_first_octet_digits)
  have "takeWhile (\<lambda>c. c \<noteq> CHR ''.'') (v6_string_from_ip_int n @ rest)
      = v6_string_from_ip_int n @ takeWhile (\<lambda>c. c \<noteq> CHR ''.'') rest"
    using v6_string_no_sep(3)[OF assms] by (intro takeWhile_append2) auto
  then have "ascii_digit (CHR '':'')"
    using d v6_string_props(2)[OF assms] by (auto simp: list_all_iff)
  then show False by (simp add: ascii_digit_def)
qed

lemma IPv6Address_canonical:
  assumes "wf_network (Net (V6 n sc) p)"
  shows "IPv6Address (str_address (V6 n sc)) = Some (V6 n sc)"
    and "IPv4Address (str_address (V6 n sc)) = None"
    and "CHR ''/'' \<notin> set (str_address (V6 n sc))"
proof -
  from assms have r: "0 \<le> n" "n \<le> v6_ALL_ONES" by (simp_all add: wf_network_def)
  let ?t = "v6_string_from_ip_int n"
  note ns = v6_string_no_sep[OF r]
  have rt: "v6_ip_int_from_string ?t = Some n" using r by (rule v6_parse_roundtrip)
  have "IPv6Address (str_address (V6 n sc)) = Some (V6 n sc)
      \<and> IPv4Address (str_address (V6 n sc)) = None
      \<and> CHR ''/'' \<notin> set (str_address (V6 n sc))"
  proof (cases sc)
    case None
    have dw: "dropWhile (\<lambda>c. c \<noteq> CHR ''%'') ?t = []" using ns(2) by auto
    have "split_scope_id ?t = Some (?t, None)" unfolding split_scope_id_def dw by simp
    then have "IPv6Address ?t = Some (V6 n None)" using ns(1) rt by (simp add: IPv6Address_def)
    moreover have "IPv4Address ?t = None" using IPv4Address_rejects_v6_text[OF r, of "[]"] by simp
    ultimately show ?thesis using None ns(1) by simp
  next
    case (Some z)
    then have z: "z \<noteq> []" "CHR ''%'' \<notin> set z" "CHR ''/'' \<notin> set z"
      using assms by (simp_all add: wf_network_def)
    have s: "str_address (V6 n sc) = ?t @ CHR ''%'' # z" using Some z(1) by simp
    have d: "dropWhile (\<lambda>c. c \<noteq> CHR ''%'') (?t @ CHR ''%'' # z) = CHR ''%'' # z"
      using ns(2) by (subst dropWhile_append2) auto
    have t: "takeWhile (\<lambda>c. c \<noteq> CHR ''%'') (?t @ CHR ''%'' # z) = ?t"
      using ns(2) by (subst takeWhile_append2) auto
    have "split_scope_id (?t @ CHR ''%'' # z) = Some (?t, Some z)"
      using z(1,2) by (simp add: split_scope_id_def d t)
    then have "IPv6Address (?t @ CHR ''%'' # z) = Some (V6 n (Some z))"
      using ns(1) z(3) rt by (simp add: IPv6Address_def)
    moreover have "IPv4Address (?t @ CHR ''%'' # z) = None"
      using r by (rule IPv4Address_rejects_v6_text)
    ultimately show ?thesis unfolding s using Some ns(1) z(3) by simp
  qed
  then show "IPv6Address (str_address (V6 n sc)) = Some (V6 n sc)"
    and "IPv4Address (str_address (V6 n sc)) = None"
    and "CHR ''/'' \<notin> set (str_address (V6 n sc))" by simp_all
qed

lemma v6_canonical_fix:
  assumes "wf_network (Net (V6 n sc) p)"
  shows "ip_network (str_network (Net (V6 n sc) p)) = Some (Net (V6 n sc) p)"
proof -
  from assms have r: "0 \<le> n" "n \<le> v6_ALL_ONES" "0 \<le> p" "p \<le> IPV6LENGTH"
    and h: "n AND drop_bit (nat p) v6_ALL_ONES = 0"
    by (simp_all add: wf_network_def)
  let ?nm = "v6_ALL_ONES XOR drop_bit (nat p) v6_ALL_ONES"
  note c = IPv6Address_canonical[OF assms]
  have "prefix_from_prefix_string IPV6LENGTH (str_int p) = Some p"
    using r(3,4) by (intro prefix_string_roundtrip) (simp_all add: IPV6LENGTH_def)
  then have m: "v6_make_netmask (MaskStr (str_int p)) = Some (?nm, p)"
    by (simp add: v6_make_netmask_def ip_int_from_prefix_def)
  have sl: "CHR ''/'' \<notin> set (str_int p)"
    using str_int_digits_nonneg(1)[OF r(3)] by (rule ascii_digit_not_sep)
  have k: "n AND ?nm = n"
    using r(1,2) h unfolding v6_ALL_ONES_mask by (rule netmask_keeps)
  show ?thesis
    using IPv6Network_nonstrict[OF c(2) c(1) m sl] by (simp add: k del: str_address.simps)
qed

section \<open>The text of the rewritten file\<close>

lemma join_lines_text: "join [CHR 0x0A] ls @ [CHR 0x0A] = lines_text ls"
proof -
  have "ls \<noteq> [] \<Longrightarrow> join [c] ls @ [c] = concat (map (\<lambda>x. x @ [c]) ls)" for c
    by (induction ls) (simp_all add: join_Cons_if)
  then show ?thesis by (cases ls) simp_all
qed

lemma lines_text_snoc:
  "ls \<noteq> [] \<Longrightarrow> lines_text (ls @ [l]) = lines_text ls @ l @ [CHR 0x0A]"
  by (cases ls) simp_all

lemma trailing_newlines_snoc:
  "trailing_newlines (t @ [CHR 0x0A]) = Suc (trailing_newlines t)"
  by (simp add: trailing_newlines_def)

lemma trailing_newlines_zero:
  assumes "l \<noteq> []" "last l \<noteq> CHR 0x0A"
  shows "trailing_newlines (t @ l) = 0"
proof -
  obtain b x where l: "l = b @ [x]" using assms(1) by (cases l rule: rev_cases) auto
  then have "x \<noteq> CHR 0x0A" using assms(2) by simp
  then show ?thesis unfolding l trailing_newlines_def by simp
qed

lemma trailing_newlines_text:
  assumes "\<forall>l\<in>set ls. l = [] \<or> last l \<noteq> CHR 0x0A"
  shows "(trailing_newlines (lines_text ls) = 1) = (length ls \<le> 1 \<or> last ls \<noteq> [])"
proof (cases ls rule: rev_cases)
  case Nil
  then show ?thesis by (simp add: trailing_newlines_def)
next
  case (snoc ls' l)
  show ?thesis
  proof (cases "l = []")
    case False
    then have "last l \<noteq> CHR 0x0A" using assms snoc by auto
    then have z: "trailing_newlines (t @ l) = 0" for t using False by (intro trailing_newlines_zero)
    have "lines_text ls = (if ls' = [] then [] else lines_text ls') @ l @ [CHR 0x0A]"
      unfolding snoc by (simp add: lines_text_snoc)
    then have "trailing_newlines (lines_text ls) = 1"
      using trailing_newlines_snoc[of "(if ls' = [] then [] else lines_text ls') @ l"] z by simp
    then show ?thesis using False snoc by simp
  next
    case True
    show ?thesis
    proof (cases ls' rule: rev_cases)
      case Nil
      then show ?thesis using True snoc by (simp add: trailing_newlines_def)
    next
      case (snoc ls'' l')
      have a: "lines_text ((ls'' @ [l']) @ [[]]) = lines_text (ls'' @ [l']) @ [] @ [CHR 0x0A]"
        by (rule lines_text_snoc) simp
      have b: "lines_text (ls'' @ [l']) = (if ls'' = [] then [] else lines_text ls'') @ l' @ [CHR 0x0A]"
        by (simp add: lines_text_snoc)
      have "lines_text ls = ((if ls'' = [] then [] else lines_text ls'') @ l' @ [CHR 0x0A]) @ [CHR 0x0A]"
        unfolding \<open>ls = ls' @ [l]\<close> snoc True a b by simp
      then have "trailing_newlines (lines_text ls)
          = Suc (Suc (trailing_newlines ((if ls'' = [] then [] else lines_text ls'') @ l')))"
        by (simp only: trailing_newlines_snoc append_assoc[symmetric])
      then show ?thesis using True \<open>ls = ls' @ [l]\<close> snoc by simp
    qed
  qed
qed

lemma splitlines_from_no_break:
  assumes "l \<in> set (splitlines_from cur s)" "list_all (\<lambda>c. \<not> is_linebreak c) cur"
  shows "list_all (\<lambda>c. \<not> is_linebreak c) l"
  using assms
proof (induction cur s rule: splitlines_from.induct)
  case (1 cur)
  then show ?case by (auto split: if_splits)
next
  case (2 cur c)
  then show ?case by (auto split: if_splits)
next
  case (3 cur c d r)
  show ?case
  proof (cases "c = CHR 0x0D \<and> d = CHR 0x0A")
    case True
    then show ?thesis using 3(1)[OF True] 3(4,5) by auto
  next
    case nc: False
    show ?thesis
    proof (cases "is_linebreak c")
      case True
      then show ?thesis using 3(2)[OF nc True] 3(4,5) nc by auto
    next
      case False
      then show ?thesis using 3(3)[OF nc False] 3(4,5) nc by auto
    qed
  qed
qed

lemma splitlines_no_LF: "l \<in> set (splitlines t) \<Longrightarrow> CHR 0x0A \<notin> set l"
  using splitlines_from_no_break[of l "[]" t] is_linebreak_LF
  by (auto simp: splitlines_def list_all_iff)

lemma set_strip: "set (strip s) \<subseteq> set s"
proof -
  have "set (strip s) = set (dropWhile isspace (rev (dropWhile isspace s)))"
    by (simp add: strip_def)
  also have "\<dots> \<subseteq> set (rev (dropWhile isspace s))" by (auto dest: set_dropWhileD)
  also have "\<dots> \<subseteq> set s" by (auto dest: set_dropWhileD)
  finally show ?thesis .
qed

lemma no_LF_end: "CHR 0x0A \<notin> set l \<Longrightarrow> l = [] \<or> last l \<noteq> CHR 0x0A"
  using last_in_set by fastforce

lemma spec_domain_line_end:
  assumes "CHR 0x0A \<notin> set raw"
  shows "spec_domain_line raw = [] \<or> last (spec_domain_line raw) \<noteq> CHR 0x0A"
proof -
  have "CHR 0x0A \<notin> set (strip raw)" using assms set_strip by blast
  then have "CHR 0x0A \<notin> set (spec_domain_line raw)"
    using assms by (simp add: spec_domain_line_def)
  then show ?thesis by (rule no_LF_end)
qed

lemma set_out_of: "set (out_of f ls) = {res. \<exists>line\<in>set ls. f line = Inr (Some res)}"
  by (auto simp: out_of_def split: sum.splits option.splits)

lemma result_shape:
  assumes "ip_normalize_ip_or_cidr line = Inr (Some res)
           \<or> normalize_ip_or_cidr line = Inr (Some res)"
  shows "res = line \<or> res = strip line \<or> (\<exists>c. res = spec_rule c)"
proof (cases "spec_blank line \<or> spec_comment line")
  case True
  then show ?thesis using assms ip_normalize_passthrough normalize_passthrough by auto
next
  case np: False
  show ?thesis
  proof (cases "startswith (upper (strip line)) ''IP-CIDR,''")
    case True
    from assms obtain c where "res = spec_rule c"
      unfolding ip_normalize_prefixed[OF True] normalize_prefixed[OF True] by auto
    then show ?thesis by blast
  next
    case False
    show ?thesis
    proof (cases "ip_address (strip line)")
      case (Some ip)
      then show ?thesis using assms normalize_bare_address[OF Some] by auto
    next
      case None
      show ?thesis
      proof (cases "CHR ''/'' \<in> set (strip line) \<and> ip_network (strip line) \<noteq> None")
        case True
        then obtain net where n: "CHR ''/'' \<in> set (strip line)" "ip_network (strip line) = Some net"
          by auto
        then show ?thesis using assms normalize_network[OF n] by auto
      next
        case nn: False
        have e: "strip line \<noteq> []" "\<not> startswith (strip line) ''#''"
          using np by (simp_all add: spec_blank_iff spec_comment_iff)
        have "ip_normalize_ip_or_cidr line = Inr None" "normalize_ip_or_cidr line = Inr None"
          using False None nn e
          by (auto simp: ip_normalize_ip_or_cidr_def normalize_ip_or_cidr_def Let_def)
        then show ?thesis using assms by simp
      qed
    qed
  qed
qed

lemma result_end:
  assumes "ip_normalize_ip_or_cidr line = Inr (Some res)
           \<or> normalize_ip_or_cidr line = Inr (Some res)"
    "CHR 0x0A \<notin> set line"
  shows "res = [] \<or> last res \<noteq> CHR 0x0A"
proof -
  have s: "CHR 0x0A \<notin> set (strip line)" using assms(2) set_strip by blast
  have "last (spec_rule c) \<noteq> CHR 0x0A" for c by (simp add: spec_rule_def)
  then show ?thesis using result_shape[OF assms(1)] no_LF_end[OF assms(2)] no_LF_end[OF s]
    by auto
qed

lemma domain_lines_end:
  "\<forall>l\<in>set (map spec_domain_line (splitlines u)). l = [] \<or> last l \<noteq> CHR 0x0A"
  using splitlines_no_LF spec_domain_line_end by auto

lemma ip_lines_end:
  "\<forall>l\<in>set (out_of ip_normalize_ip_or_cidr (splitlines u)). l = [] \<or> last l \<noteq> CHR 0x0A"
  "\<forall>l\<in>set (out_of normalize_ip_or_cidr (splitlines u)). l = [] \<or> last l \<noteq> CHR 0x0A"
  using splitlines_no_LF result_end unfolding set_out_of by blast+

text \<open>
  Claim C9 as stated fails: for the file whose text is \<open>x\<close> and two LF, domains.py keeps
  the blank second line, and the rewritten text ends in two LF, not in exactly one.
\<close>

theorem C9_two_trailing_newlines_counterexample:
  "file_after (domains_process_lst_file
       (map_of [(''a.lst'', ''x'' @ [CHR 0x0A, CHR 0x0A])]) ''a.lst'') ''a.lst''
     = Some (''DOMAIN-SUFFIX,x'' @ [CHR 0x0A, CHR 0x0A])
   \<and> trailing_newlines (''DOMAIN-SUFFIX,x'' @ [CHR 0x0A, CHR 0x0A]) = 2"
proof -
  have a: "map_of [(''a.lst'', ''x'' @ [CHR 0x0A, CHR 0x0A])] ''a.lst'' = Some (''x'' @ [CHR 0x0A, CHR 0x0A])"
    by simp
  have b: "join [CHR 0x0A] (map spec_domain_line (splitlines (universal_newlines (''x'' @ [CHR 0x0A, CHR 0x0A]))))
      = ''DOMAIN-SUFFIX,x'' @ [CHR 0x0A]"
    by code_simp
  have c: "trailing_newlines (''DOMAIN-SUFFIX,x'' @ [CHR 0x0A, CHR 0x0A]) = 2"
    by code_simp
  show ?thesis
    unfolding domains_process_lst_file_eq[of "map_of [(''a.lst'', ''x'' @ [CHR 0x0A, CHR 0x0A])]" "''a.lst''", OF a] b c
    by (simp add: file_after_def)
qed

text \<open>
  Claim C9, amended. For every file that exists, whatever its text and however it ends, each
  of the four file functions rewrites the file as its transformed lines, every one followed
  by one LF, and as a single LF when there is no transformed line. The rewritten text ends
  in exactly one LF if and only if there is at most one transformed line or the last
  transformed line is not empty.
\<close>

theorem C9_lines_terminated:
  assumes "files p = Some t"
  shows "rewritten_as (file_after (domains_process_lst_file files p) p)
           (fst (domains_loop (splitlines (universal_newlines t)) [] 0))
       \<and> rewritten_as (file_after (process_domain_lst_file files p) p)
           (fst (process_domain_loop (splitlines (universal_newlines t)) [] 0))
       \<and> rewritten_as (file_after (ip_process_lst_file files p) p)
           (out_of ip_normalize_ip_or_cidr (splitlines (universal_newlines t)))
       \<and> rewritten_as (file_after (process_ip_lst_file files p) p)
           (out_of normalize_ip_or_cidr (splitlines (universal_newlines t)))"
proof -
  let ?u = "universal_newlines t"
  have 1: "rewritten_as (file_after (domains_process_lst_file files p) p)
           (fst (domains_loop (splitlines ?u) [] 0))"
    using assms trailing_newlines_text[OF domain_lines_end[of ?u]]
    by (simp add: rewritten_as_def file_after_def domains_process_lst_file_eq domains_loop_eq
        join_lines_text)
  have 2: "rewritten_as (file_after (process_domain_lst_file files p) p)
           (fst (process_domain_loop (splitlines ?u) [] 0))"
    using assms trailing_newlines_text[OF domain_lines_end[of ?u]]
    by (simp add: rewritten_as_def file_after_def process_domain_lst_file_eq
        process_domain_loop_eq join_lines_text)
  have 3: "rewritten_as (file_after (ip_process_lst_file files p) p)
           (out_of ip_normalize_ip_or_cidr (splitlines ?u))"
    using assms trailing_newlines_text[OF ip_lines_end(1)[of ?u]]
    by (simp add: rewritten_as_def file_after_def ip_process_lst_file_eq join_lines_text)
  have 4: "rewritten_as (file_after (process_ip_lst_file files p) p)
           (out_of normalize_ip_or_cidr (splitlines ?u))"
    using assms trailing_newlines_text[OF ip_lines_end(2)[of ?u]]
    by (simp add: rewritten_as_def file_after_def process_ip_lst_file_eq join_lines_text)
  show ?thesis using 1 2 3 4 by simp
qed


theorem C9_lines_terminated_witness:
  "file_after (domains_process_lst_file
       (map_of [(''a.lst'', ''example.com'' @ [CHR 0x0A] @ ''x.org'')]) ''a.lst'') ''a.lst''
     = Some (''DOMAIN-SUFFIX,example.com'' @ [CHR 0x0A] @ ''DOMAIN-SUFFIX,x.org'' @ [CHR 0x0A])
   \<and> file_after (domains_process_lst_file
       (map_of [(''a.lst'', ''example.com'' @ [CHR 0x0A] @ ''x.org'' @ [CHR 0x0A])]) ''a.lst'') ''a.lst''
     = Some (''DOMAIN-SUFFIX,example.com'' @ [CHR 0x0A] @ ''DOMAIN-SUFFIX,x.org'' @ [CHR 0x0A])
   \<and> trailing_newlines
        (''DOMAIN-SUFFIX,example.com'' @ [CHR 0x0A] @ ''DOMAIN-SUFFIX,x.org'' @ [CHR 0x0A]) = 1
   \<and> file_after (ip_process_lst_file (map_of [(''b.lst'', ''not-an-ip'')]) ''b.lst'') ''b.lst''
     = Some [CHR 0x0A]
   \<and> file_after (ip_process_lst_file
       (map_of [(''b.lst'', ''1.2.3.4'' @ [CHR 0x0A, CHR 0x0A])]) ''b.lst'') ''b.lst''
     = Some (''IP-CIDR,1.2.3.4/32,no-resolve'' @ [CHR 0x0A, CHR 0x0A])
   \<and> trailing_newlines (''IP-CIDR,1.2.3.4/32,no-resolve'' @ [CHR 0x0A, CHR 0x0A]) \<noteq> 1"
proof -
  let ?t1 = "''example.com'' @ [CHR 0x0A] @ ''x.org''"
  let ?t2 = "''example.com'' @ [CHR 0x0A] @ ''x.org'' @ [CHR 0x0A]"
  let ?t3 = "''1.2.3.4'' @ [CHR 0x0A, CHR 0x0A]"
  have a1: "map_of [(''a.lst'', ?t1)] ''a.lst'' = Some ?t1" by simp
  have a2: "map_of [(''a.lst'', ?t2)] ''a.lst'' = Some ?t2" by simp
  have a3: "map_of [(''b.lst'', ''not-an-ip'')] ''b.lst'' = Some ''not-an-ip''" by simp
  have a4: "map_of [(''b.lst'', ?t3)] ''b.lst'' = Some ?t3" by simp
  have c1: "fst (domains_loop (splitlines (universal_newlines ?t1)) [] 0)
      = [''DOMAIN-SUFFIX,example.com'', ''DOMAIN-SUFFIX,x.org'']"
    by code_simp
  have c2: "fst (domains_loop (splitlines (universal_newlines ?t2)) [] 0)
      = [''DOMAIN-SUFFIX,example.com'', ''DOMAIN-SUFFIX,x.org'']"
    by code_simp
  have c3: "out_of ip_normalize_ip_or_cidr (splitlines (universal_newlines ''not-an-ip'')) = []"
    by code_simp
  have c4: "out_of ip_normalize_ip_or_cidr (splitlines (universal_newlines ?t3))
      = [''IP-CIDR,1.2.3.4/32,no-resolve'', []]"
    by code_simp
  have 1: "rewritten_as (file_after (domains_process_lst_file (map_of [(''a.lst'', ?t1)]) ''a.lst'') ''a.lst'')
      [''DOMAIN-SUFFIX,example.com'', ''DOMAIN-SUFFIX,x.org'']"
    using C9_lines_terminated[of "map_of [(''a.lst'', ?t1)]" "''a.lst''" ?t1, OF a1]
    unfolding c1 by (rule conjunct1)
  have 2: "rewritten_as (file_after (domains_process_lst_file (map_of [(''a.lst'', ?t2)]) ''a.lst'') ''a.lst'')
      [''DOMAIN-SUFFIX,example.com'', ''DOMAIN-SUFFIX,x.org'']"
    using C9_lines_terminated[of "map_of [(''a.lst'', ?t2)]" "''a.lst''" ?t2, OF a2]
    unfolding c2 by (rule conjunct1)
  have 3: "rewritten_as (file_after (ip_process_lst_file (map_of [(''b.lst'', ''not-an-ip'')]) ''b.lst'') ''b.lst'') []"
    using C9_lines_terminated[of "map_of [(''b.lst'', ''not-an-ip'')]" "''b.lst''" "''not-an-ip''", OF a3]
    unfolding c3 by simp
  have 4: "rewritten_as (file_after (ip_process_lst_file (map_of [(''b.lst'', ?t3)]) ''b.lst'') ''b.lst'')
      [''IP-CIDR,1.2.3.4/32,no-resolve'', []]"
    using C9_lines_terminated[of "map_of [(''b.lst'', ?t3)]" "''b.lst''" ?t3, OF a4]
    unfolding c4 by simp
  show ?thesis using 1 2 3 4 unfolding rewritten_as_def by simp
qed

section \<open>The values that the library builds\<close>

lemma IPv6Address_parts:
  assumes "IPv6Address s = Some (V6 n sc)"
  shows "0 \<le> n" "n \<le> v6_ALL_ONES"
    "case sc of None \<Rightarrow> True
     | Some z \<Rightarrow> z \<noteq> [] \<and> CHR ''%'' \<notin> set z \<and> CHR ''/'' \<notin> set z"
proof -
  from assms obtain addr where
    sl: "CHR ''/'' \<notin> set s" and sp: "split_scope_id s = Some (addr, sc)" and
    p: "v6_ip_int_from_string addr = Some n"
    by (auto simp: IPv6Address_def split: if_splits option.splits)
  show "0 \<le> n" "n \<le> v6_ALL_ONES" using v6_range[OF p] by simp_all
  show "case sc of None \<Rightarrow> True
     | Some z \<Rightarrow> z \<noteq> [] \<and> CHR ''%'' \<notin> set z \<and> CHR ''/'' \<notin> set z"
  proof (cases "dropWhile (\<lambda>c. c \<noteq> CHR ''%'') s")
    case Nil
    then have "sc = None" using sp unfolding split_scope_id_def Nil by simp
    then show ?thesis by simp
  next
    case (Cons x z)
    then have z: "sc = Some z" "z \<noteq> []" "CHR ''%'' \<notin> set z"
      using sp unfolding split_scope_id_def Cons by (auto split: if_splits)
    have "set z \<subseteq> set (dropWhile (\<lambda>c. c \<noteq> CHR ''%'') s)" unfolding Cons by auto
    then have "set z \<subseteq> set s" using set_dropWhileD by fastforce
    then show ?thesis using z sl by auto
  qed
qed

lemma IPv6Network_wf:
  assumes "IPv6Network s = Some net"
  shows "wf_network net"
proof -
  obtain a p where net: "net = Net a p" by (cases net)
  from assms obtain addr msk n sc netmask where
    a6: "IPv6Address addr = Some (V6 n sc)" and
    mk: "v6_make_netmask msk = Some (netmask, p)" and
    a: "a = (if n AND netmask \<noteq> n then V6 (n AND netmask) None else V6 n sc)"
    unfolding net by (rule IPv6Network_cases)
  note r = IPv6Address_parts[OF a6]
  note nr = and_range[OF r(1,2), of netmask]
  note m = v6_make_netmask_range[OF mk]
  have h: "(n AND netmask) AND drop_bit (nat p) v6_ALL_ONES = 0"
    unfolding m(3) v6_ALL_ONES_mask by (rule host_bits_zero)
  show ?thesis
  proof (cases "n AND netmask \<noteq> n")
    case True
    then show ?thesis using a nr m(1,2) h by (simp add: net wf_network_def)
  next
    case False
    then have "a = V6 (n AND netmask) sc" using a by simp
    then show ?thesis using nr m(1,2) h r(3) by (simp add: net wf_network_def)
  qed
qed

lemma IPv6Address_wf:
  assumes "IPv6Address s = Some (V6 n sc)"
  shows "wf_network (Net (V6 n sc) 128)"
proof -
  note r = IPv6Address_parts[OF assms]
  have "drop_bit 128 v6_ALL_ONES = 0" by (simp add: v6_ALL_ONES_def drop_bit_eq_div)
  then show ?thesis using r by (simp add: wf_network_def IPV6LENGTH_def)
qed

lemma ip_network_wf:
  assumes "ip_network s = Some net"
  shows "wf_network net"
  using assms IPv4Network_wf IPv6Network_wf
  by (auto simp: ip_network_def split: option.splits)

lemma ip_address_wf:
  assumes "ip_address s = Some ip"
  shows "wf_network (Net ip (if isinstance_IPv4Address ip then 32 else 128))"
proof (cases "IPv4Address s")
  case None
  then have a: "IPv6Address s = Some ip" using assms by (simp add: ip_address_def)
  then obtain n sc where "ip = V6 n sc" using IPv6Address_V6 by blast
  then show ?thesis using IPv6Address_wf a by simp
next
  case (Some a)
  then have a: "IPv4Address s = Some ip" using assms by (simp add: ip_address_def)
  then obtain n where "ip = V4 n" using IPv4Address_V4 by blast
  then show ?thesis using IPv4Address_wf a by simp
qed

lemma canonical_fix:
  assumes "wf_network net"
  shows "ip_network (str_network net) = Some net"
proof -
  obtain a p where net: "net = Net a p" by (cases net)
  show ?thesis
  proof (cases a)
    case (V4 n)
    then show ?thesis using assms v4_canonical_fix unfolding net by blast
  next
    case (V6 n sc)
    then show ?thesis using assms v6_canonical_fix unfolding net by blast
  qed
qed

lemma ascii_digit_not_space: "ascii_digit c \<Longrightarrow> \<not> isspace c"
  by (auto simp: ascii_digit_def isspace_def Let_def)

lemma str_network_shape:
  assumes "wf_network net"
  shows "str_network net \<noteq> []" "\<not> isspace (hd (str_network net))"
    "\<not> isspace (last (str_network net))" "CHR ''/'' \<in> set (str_network net)"
proof -
  obtain a p where net: "net = Net a p" by (cases net)
  have p: "0 \<le> p" using assms unfolding net by (cases a) (simp_all add: wf_network_def)
  note d = str_int_digits_nonneg[OF p]
  have a: "str_address a \<noteq> [] \<and> \<not> isspace (hd (str_address a))"
  proof (cases a)
    case (V4 n)
    then show ?thesis using v4_string_chars(2,3)[of n] by (simp add: ascii_digit_not_space)
  next
    case (V6 n sc)
    then have r: "0 \<le> n" "n \<le> v6_ALL_ONES" using assms unfolding net by (simp_all add: wf_network_def)
    note s = v6_string_no_sep(5,6)[OF r]
    show ?thesis using s unfolding V6 by (cases sc) (simp_all add: Let_def)
  qed
  have l: "last (str_network net) = last (str_int p)" using d(2) by (simp add: net)
  have "last (str_int p) \<in> set (str_int p)" using d(2) by simp
  then have "ascii_digit (last (str_int p))" using d(1) by (simp add: list_all_iff)
  then show "\<not> isspace (last (str_network net))" unfolding l by (rule ascii_digit_not_space)
  show "str_network net \<noteq> []" by (simp add: net)
  show "\<not> isspace (hd (str_network net))" using a by (simp add: net)
  show "CHR ''/'' \<in> set (str_network net)" by (simp add: net)
qed

lemma host_network_text:
  "str_address ip @ (if isinstance_IPv4Address ip then ''/32'' else ''/128'')
     = str_network (Net ip (if isinstance_IPv4Address ip then 32 else 128))"
proof -
  have "str_int 32 = ''32''" "str_int 128 = ''128''" by code_simp+
  then show ?thesis by simp
qed


section \<open>A second pass of the IP normalizers\<close>

text \<open>
  Every result of the two IP normalizers is either a line passed through or the rule of a
  network that the library built. Such a rule is read back as itself when its CIDR field
  holds no comma, that is, when the rule has exactly three comma-separated fields. A second
  run over an output whose rules all have three fields therefore keeps every line: nothing
  is changed and nothing is dropped. (The CIDR field can hold a comma only inside the zone
  identifier of an IPv6 address.)
\<close>

lemma length_split: "length (split sep s) = Suc (count_list s sep)"
proof (induction s)
  case Nil
  show ?case by simp
next
  case (Cons c cs)
  then show ?case by (cases "split sep cs") auto
qed

lemma rule_three_fields:
  "length (split (CHR '','') (spec_rule x)) = 3 \<longleftrightarrow> CHR '','' \<notin> set x"
proof -
  have "count_list (spec_rule x) (CHR '','') = Suc (Suc (count_list x (CHR '','')))"
    by (simp add: spec_rule_def)
  then show ?thesis by (simp add: length_split count_list_0_iff)
qed

lemma rule_prefixed:
  "startswith (spec_rule x) ''IP-CIDR,''" "startswith (upper (spec_rule x)) ''IP-CIDR,''"
  "strip (spec_rule x) = spec_rule x" "drop 8 (spec_rule x) = x @ '',no-resolve''"
proof -
  show "startswith (spec_rule x) ''IP-CIDR,''" by (simp add: startswith_def spec_rule_def)
  have "upper ''IP-CIDR,'' = ''IP-CIDR,''" by code_simp
  then show "startswith (upper (spec_rule x)) ''IP-CIDR,''"
    by (simp add: startswith_def spec_rule_def upper_def)
  have "\<not> isspace (CHR ''I'')" "\<not> isspace (CHR ''e'')" by code_simp+
  then show "strip (spec_rule x) = spec_rule x"
    by (intro strip_id) (simp_all add: spec_rule_def)
  show "drop 8 (spec_rule x) = x @ '',no-resolve''" by (simp add: spec_rule_def)
qed

lemma rule_second_pass:
  assumes "wf_network net" "CHR '','' \<notin> set (str_network net)"
  shows "ip_normalize_ip_or_cidr (spec_rule (str_network net))
           = Inr (Some (spec_rule (str_network net)))"
    and "normalize_ip_or_cidr (spec_rule (str_network net))
           = Inr (Some (spec_rule (str_network net)))"
proof -
  let ?x = "str_network net"
  note s = str_network_shape[OF assms(1)]
  have st: "strip ?x = ?x" using s(1,2,3) by (rule strip_id)
  have "\<not> isspace (CHR ''e'')" by code_simp
  then have b: "strip (?x @ '',no-resolve'') = ?x @ '',no-resolve''"
    using s(1,2) by (intro strip_id) simp_all
  have "takeWhile (\<lambda>c. c \<noteq> CHR '','') (?x @ '',no-resolve'') = ?x"
    using assms(2) by (subst takeWhile_append2) auto
  then have f: "spec_first_field (?x @ '',no-resolve'') = ?x"
    by (simp add: spec_first_field_def st)
  have c: "spec_candidate_cidr ?x = Some ?x"
    using s(4) canonical_fix[OF assms(1)] by (simp add: spec_candidate_cidr_def)
  have p: "startswith (upper (strip (spec_rule ?x))) ''IP-CIDR,''"
    by (simp add: rule_prefixed)
  show "ip_normalize_ip_or_cidr (spec_rule ?x) = Inr (Some (spec_rule ?x))"
    unfolding ip_normalize_prefixed[OF p] by (simp add: rule_prefixed b f c)
  show "normalize_ip_or_cidr (spec_rule ?x) = Inr (Some (spec_rule ?x))"
    unfolding normalize_prefixed[OF p] by (simp add: rule_prefixed b f c)
qed

lemma candidate_wf:
  assumes "spec_candidate_cidr cand = Some c"
  obtains net where "wf_network net" "c = str_network net"
proof (cases "CHR ''/'' \<in> set cand")
  case True
  then obtain net where "ip_network cand = Some net" "c = str_network net"
    using assms by (auto simp: spec_candidate_cidr_def)
  then show ?thesis using that ip_network_wf by blast
next
  case False
  then obtain ip where "ip_address cand = Some ip"
    "c = str_address ip @ (if isinstance_IPv4Address ip then ''/32'' else ''/128'')"
    using assms by (auto simp: spec_candidate_cidr_def)
  then show ?thesis using that ip_address_wf host_network_text by blast
qed

lemma result_cases:
  assumes "ip_normalize_ip_or_cidr line = Inr (Some res)
           \<or> normalize_ip_or_cidr line = Inr (Some res)"
  obtains (pass) "spec_blank line \<or> spec_comment line"
  | (rule) net where "wf_network net" "res = spec_rule (str_network net)"
proof (cases "spec_blank line \<or> spec_comment line")
  case True
  then show ?thesis by (rule pass)
next
  case np: False
  show ?thesis
  proof (cases "startswith (upper (strip line)) ''IP-CIDR,''")
    case True
    from assms obtain c where
      "spec_candidate_cidr (spec_first_field (strip (drop 8 (strip line)))) = Some c"
      "res = spec_rule c"
      unfolding ip_normalize_prefixed[OF True] normalize_prefixed[OF True] by auto
    then show ?thesis using rule candidate_wf by metis
  next
    case False
    show ?thesis
    proof (cases "ip_address (strip line)")
      case (Some ip)
      then have "res = spec_rule (str_network (Net ip (if isinstance_IPv4Address ip then 32 else 128)))"
        using assms normalize_bare_address[OF Some] host_network_text[of ip] by auto
      then show ?thesis using rule ip_address_wf[OF Some] by blast
    next
      case None
      show ?thesis
      proof (cases "CHR ''/'' \<in> set (strip line) \<and> ip_network (strip line) \<noteq> None")
        case True
        then obtain net where n: "CHR ''/'' \<in> set (strip line)" "ip_network (strip line) = Some net"
          by auto
        then have "res = spec_rule (str_network net)"
          using assms normalize_network[OF n] by auto
        then show ?thesis using rule ip_network_wf[OF n(2)] by blast
      next
        case nn: False
        have e: "strip line \<noteq> []" "\<not> startswith (strip line) ''#''"
          using np by (simp_all add: spec_blank_iff spec_comment_iff)
        have "ip_normalize_ip_or_cidr line = Inr None" "normalize_ip_or_cidr line = Inr None"
          using False None nn e
          by (auto simp: ip_normalize_ip_or_cidr_def normalize_ip_or_cidr_def Let_def)
        then show ?thesis using assms by simp
      qed
    qed
  qed
qed


lemma ip_second_pass_line:
  assumes "ip_normalize_ip_or_cidr line = Inr (Some res)"
    "startswith res ''IP-CIDR,'' \<longrightarrow> length (split (CHR '','') res) = 3"
  shows "ip_normalize_ip_or_cidr res = Inr (Some res)"
proof -
  from assms(1) have "ip_normalize_ip_or_cidr line = Inr (Some res)
      \<or> normalize_ip_or_cidr line = Inr (Some res)" by simp
  then show ?thesis
  proof (cases rule: result_cases)
    case pass
    then have r: "res = strip line" using assms(1) ip_normalize_passthrough by simp
    have "spec_blank res \<or> spec_comment res"
      using pass unfolding r by (simp add: spec_blank_iff spec_comment_iff strip_strip)
    then have "ip_normalize_ip_or_cidr res = Inr (Some (strip res))"
      by (rule ip_normalize_passthrough)
    then show ?thesis by (simp add: r strip_strip)
  next
    case (rule net)
    have "CHR '','' \<notin> set (str_network net)"
      using assms(2) rule_prefixed(1) unfolding rule(2) by (simp add: rule_three_fields)
    then show ?thesis unfolding rule(2) using rule(1) rule_second_pass(1) by blast
  qed
qed

lemma second_pass_line:
  assumes "normalize_ip_or_cidr line = Inr (Some res)"
    "startswith res ''IP-CIDR,'' \<longrightarrow> length (split (CHR '','') res) = 3"
  shows "normalize_ip_or_cidr res = Inr (Some res)"
proof -
  from assms(1) have "ip_normalize_ip_or_cidr line = Inr (Some res)
      \<or> normalize_ip_or_cidr line = Inr (Some res)" by simp
  then show ?thesis
  proof (cases rule: result_cases)
    case pass
    then have "res = line" using assms(1) normalize_passthrough by simp
    then show ?thesis using assms(1) by simp
  next
    case (rule net)
    have "CHR '','' \<notin> set (str_network net)"
      using assms(2) rule_prefixed(1) unfolding rule(2) by (simp add: rule_three_fields)
    then show ?thesis unfolding rule(2) using rule(1) rule_second_pass(2) by blast
  qed
qed

lemma fixed_lines:
  assumes "\<forall>res\<in>set rs. f res = Inr (Some res)"
  shows "out_of f rs = rs" "changed_of f rs = 0" "kept_of f rs = length rs"
    "dropped_of f rs = 0"
proof -
  show "out_of f rs = rs" using assms by (induction rs) (simp_all add: out_of_def)
  show "changed_of f rs = 0" using assms by (simp add: changed_of_def)
  show "kept_of f rs = length rs" using assms by (simp add: kept_of_def)
  show "dropped_of f rs = 0" using assms by (simp add: dropped_of_def)
qed

lemma ip_second_pass:
  assumes "\<forall>res\<in>set (out_of ip_normalize_ip_or_cidr ls).
             startswith res ''IP-CIDR,'' \<longrightarrow> length (split (CHR '','') res) = 3"
  shows "ip_loop (out_of ip_normalize_ip_or_cidr ls) [] 0 0
           = Inr (out_of ip_normalize_ip_or_cidr ls, 0, length (out_of ip_normalize_ip_or_cidr ls))"
proof -
  have "\<forall>res\<in>set (out_of ip_normalize_ip_or_cidr ls). ip_normalize_ip_or_cidr res = Inr (Some res)"
    using assms ip_second_pass_line unfolding set_out_of by blast
  note f = fixed_lines[OF this]
  show ?thesis unfolding ip_loop_eq by (simp add: f(1,2,3))
qed

lemma process_ip_second_pass:
  assumes "\<forall>res\<in>set (out_of normalize_ip_or_cidr ls).
             startswith res ''IP-CIDR,'' \<longrightarrow> length (split (CHR '','') res) = 3"
  shows "process_ip_loop (out_of normalize_ip_or_cidr ls) [] 0 0
           = Inr (out_of normalize_ip_or_cidr ls, 0, length (out_of normalize_ip_or_cidr ls))"
proof -
  have "\<forall>res\<in>set (out_of normalize_ip_or_cidr ls). normalize_ip_or_cidr res = Inr (Some res)"
    using assms second_pass_line unfolding set_out_of by blast
  note f = fixed_lines[OF this]
  show ?thesis unfolding process_ip_loop_eq by (simp add: f(1,2,3))
qed
lemma ip_second_pass_example:
  "ip_loop [''  1.2.3.4 '', '' # c'', ''10.1.2.3/24'', ''x''] [] 0 0
     = Inr ([''IP-CIDR,1.2.3.4/32,no-resolve'', ''# c'', ''IP-CIDR,10.1.2.0/24,no-resolve''], 3, 0)
   \<and> ip_loop [''IP-CIDR,1.2.3.4/32,no-resolve'', ''# c'', ''IP-CIDR,10.1.2.0/24,no-resolve''] [] 0 0
     = Inr ([''IP-CIDR,1.2.3.4/32,no-resolve'', ''# c'', ''IP-CIDR,10.1.2.0/24,no-resolve''], 0, 3)"
proof -
  have o: "out_of ip_normalize_ip_or_cidr [''  1.2.3.4 '', '' # c'', ''10.1.2.3/24'', ''x'']
      = [''IP-CIDR,1.2.3.4/32,no-resolve'', ''# c'', ''IP-CIDR,10.1.2.0/24,no-resolve'']"
    by code_simp
  have c: "changed_of ip_normalize_ip_or_cidr [''  1.2.3.4 '', '' # c'', ''10.1.2.3/24'', ''x''] = 3"
    "kept_of ip_normalize_ip_or_cidr [''  1.2.3.4 '', '' # c'', ''10.1.2.3/24'', ''x''] = 0"
    by code_simp+
  have "\<forall>res\<in>set (out_of ip_normalize_ip_or_cidr [''  1.2.3.4 '', '' # c'', ''10.1.2.3/24'', ''x'']).
          startswith res ''IP-CIDR,'' \<longrightarrow> length (split (CHR '','') res) = 3"
    unfolding o by (simp add: startswith_def)
  from ip_second_pass[OF this] show ?thesis unfolding ip_loop_eq o by (simp add: o c)
qed

end
